theory Spec2Isabelle
  imports Complex_Main
begin

section \<open>Outcomes of the simulation's computations\<close>

text \<open>
  The program is the Python 2 script \<^verbatim>\<open>probabilistic_convergence.py\<close>. Its round
  (the body of the simulation cycle, lines 211--345) works on lists of node indices and
  on a numpy matrix of decision distributions. A Python exception ends the program; a
  numpy division by a zero sum raises nothing: it stores nan or inf and goes on. The
  model works over exact reals. The outcome \<open>NonFinite\<close> of a computation says that it
  ends without an exception and leaves nan or inf in the matrix; what the program does
  between the division and the end of the computation is followed over the values of
  \<open>fval\<close> below, so that an exception raised after the division is the outcome.
  \<open>bind\<close> hands the value of one step to the next; a step that ends with \<open>NonFinite\<close> is
  followed by \<open>bind\<close> only where the steps after it cannot raise.
\<close>

datatype py_error = ValueError | IndexError | ZeroDivisionError | SystemExit

datatype 'a outcome = Raises py_error | NonFinite | Returns 'a

fun bind :: "'a outcome \<Rightarrow> ('a \<Rightarrow> 'b outcome) \<Rightarrow> 'b outcome" where
  "bind (Raises e) f = Raises e"
| "bind NonFinite f = NonFinite"
| "bind (Returns x) f = f x"

section \<open>Subgroup detection (lines 214--253)\<close>

text \<open>
  Lines 242--247: the neighbours of a new member join the potential members when they are
  not there yet, not in the current subgroup, and still in the node pool.
\<close>

fun append_new :: "nat list \<Rightarrow> nat list \<Rightarrow> nat list \<Rightarrow> nat list \<Rightarrow> nat list" where
  "append_new [] p_members subgroup_temp n_pool = p_members"
| "append_new (member # rest) p_members subgroup_temp n_pool =
     append_new rest
       (if member \<notin> set p_members \<and> member \<notin> set subgroup_temp \<and> member \<in> set n_pool
        then p_members @ [member] else p_members)
       subgroup_temp n_pool"

text \<open>
  Lines 232--251: the inner while loop. It returns the pool and the subgroup it has built.
  \<open>n_pool.remove\<close> raises ValueError when the node is not in the pool; the indexing of
  \<open>deci_domi\<close> and \<open>connection_lists\<close> raises IndexError out of range.
\<close>

function search_members ::
  "nat list list \<Rightarrow> nat list \<Rightarrow> nat \<Rightarrow> nat list \<Rightarrow> nat \<Rightarrow> nat list \<Rightarrow> nat list
     \<Rightarrow> (nat list \<times> nat list) outcome" where
  "search_members connection_lists deci_domi current_domi p_members p_index n_pool subgroup_temp =
     (if p_index < length p_members then
        (if \<not> p_members ! p_index < length deci_domi then Raises IndexError
         else if deci_domi ! (p_members ! p_index) = current_domi then
           (let new_member = p_members ! p_index in
            if new_member \<notin> set n_pool then Raises ValueError
            else if \<not> new_member < length connection_lists then Raises IndexError
            else search_members connection_lists deci_domi current_domi
                   (append_new (connection_lists ! new_member) (remove1 new_member p_members)
                      (subgroup_temp @ [new_member]) (remove1 new_member n_pool))
                   p_index (remove1 new_member n_pool) (subgroup_temp @ [new_member]))
         else search_members connection_lists deci_domi current_domi p_members (p_index + 1)
                n_pool subgroup_temp)
      else Returns (n_pool, subgroup_temp))"
  by pat_completeness auto
termination
proof (relation "measures [\<lambda>(c, d, cd, pm, pi, np, sg). length np,
                           \<lambda>(c, d, cd, pm, pi, np, sg). length pm - pi]", goal_cases)
  case 1
  show ?case by simp
next
  case (2 connection_lists deci_domi current_domi p_members p_index n_pool subgroup_temp x)
  from 2 have "0 < length n_pool" "length (remove1 x n_pool) = length n_pool - 1"
    by (auto simp: length_remove1)
  then show ?case by simp
next
  case 3
  then show ?case by auto
qed

declare search_members.simps [simp del]

lemma search_members_pool_length:
  "search_members c d cd pm k np sg = Returns (np', sg') \<Longrightarrow> length np' \<le> length np"
proof (induction c d cd pm k np sg rule: search_members.induct)
  case (1 c d cd pm k np sg)
  show ?case
  proof (cases "k < length pm")
    case False
    with "1.prems" show ?thesis by (simp add: search_members.simps)
  next
    case True
    note k = True
    show ?thesis
    proof (cases "pm ! k < length d")
      case False
      with k "1.prems" show ?thesis by (simp add: search_members.simps)
    next
      case True
      note inr = True
      show ?thesis
      proof (cases "d ! (pm ! k) = cd")
        case False
        with k inr "1.prems" "1.IH"(2) show ?thesis by (simp add: search_members.simps)
      next
        case True
        with k inr "1.prems" have ok: "pm ! k \<in> set np" "pm ! k < length c"
          by (auto simp: search_members.simps Let_def split: if_splits)
        with k inr True "1.prems" have
          "search_members c d cd
             (append_new (c ! (pm ! k)) (remove1 (pm ! k) pm) (sg @ [pm ! k]) (remove1 (pm ! k) np))
             k (remove1 (pm ! k) np) (sg @ [pm ! k]) = Returns (np', sg')"
          by (simp add: search_members.simps Let_def)
        with "1.IH"(1)[OF k _ True refl] inr ok
        have "length np' \<le> length (remove1 (pm ! k) np)"
          by simp
        then show ?thesis by (simp add: length_remove1 split: if_splits)
      qed
    qed
  qed
qed

text \<open>
  Lines 217--253: the outer while loop over the node pool. The first node of the pool
  opens a subgroup; its neighbours are the first potential members.
\<close>

function find_subgroups ::
  "nat list list \<Rightarrow> nat list \<Rightarrow> nat list \<Rightarrow> nat list list \<Rightarrow> nat list list outcome" where
  "find_subgroups connection_lists deci_domi n_pool subgroups =
     (case n_pool of
        [] \<Rightarrow> Returns subgroups
      | first_member # n_pool' \<Rightarrow>
          if \<not> first_member < length connection_lists then Raises IndexError
          else if \<not> first_member < length deci_domi then Raises IndexError
          else
            (case search_members connection_lists deci_domi (deci_domi ! first_member)
                    (connection_lists ! first_member) 0 n_pool' [first_member] of
               Raises e \<Rightarrow> Raises e
             | NonFinite \<Rightarrow> NonFinite
             | Returns (n_pool'', subgroup_temp) \<Rightarrow>
                 find_subgroups connection_lists deci_domi n_pool'' (subgroups @ [subgroup_temp])))"
  by pat_completeness auto
termination
proof (relation "measure (\<lambda>(c, d, np, sgs). length np)", goal_cases)
  case 1
  show ?case by simp
next
  case (2 c d np sgs f np' r x y)
  then show ?case
    using search_members_pool_length[of c d "d ! f" "c ! f" 0 np' "[f]" x y] by simp
qed

declare find_subgroups.simps [simp del]

definition detect_subgroups :: "nat \<Rightarrow> nat list list \<Rightarrow> nat list \<Rightarrow> nat list list outcome" where
  "detect_subgroups net_size connection_lists deci_domi =
     find_subgroups connection_lists deci_domi [0..<net_size] []"

subsection \<open>Subgroup sizes and the assignment check (lines 256--266)\<close>

fun assign_sizes ::
  "nat \<Rightarrow> nat list \<Rightarrow> nat list \<Rightarrow> nat list \<Rightarrow> (nat list \<times> nat list) outcome" where
  "assign_sizes size_temp [] subsizes traverse_list = Returns (subsizes, traverse_list)"
| "assign_sizes size_temp (i # sub) subsizes traverse_list =
     (if \<not> i < length subsizes then Raises IndexError
      else if i \<notin> set traverse_list then Raises ValueError
      else assign_sizes size_temp sub (subsizes[i := size_temp]) (remove1 i traverse_list))"

fun assign_all :: "nat list list \<Rightarrow> nat list \<Rightarrow> nat list \<Rightarrow> (nat list \<times> nat list) outcome" where
  "assign_all [] subsizes traverse_list = Returns (subsizes, traverse_list)"
| "assign_all (sub # subgroups) subsizes traverse_list =
     bind (assign_sizes (length sub) sub subsizes traverse_list)
       (\<lambda>(subsizes', traverse_list'). assign_all subgroups subsizes' traverse_list')"

definition update_subsizes :: "nat \<Rightarrow> nat list list \<Rightarrow> nat list \<Rightarrow> nat list outcome" where
  "update_subsizes net_size subgroups subsizes =
     bind (assign_all subgroups subsizes [0..<net_size])
       (\<lambda>(subsizes', traverse_list).
          if length traverse_list \<noteq> 0 then Raises SystemExit else Returns subsizes')"

section \<open>Decision distributions\<close>

text \<open>
  \<open>deci_dist\<close> is a numpy array of shape \<open>net_size \<times> deci_num\<close>: here a list of rows, over
  exact reals. The entrywise operations of numpy on two rows of the same shape are
  \<open>map2\<close>; the shape is the hypothesis \<open>shaped\<close> of the theorems below.
\<close>

definition shaped :: "nat \<Rightarrow> nat \<Rightarrow> real list list \<Rightarrow> bool" where
  "shaped net_size deci_num deci_dist \<longleftrightarrow>
     length deci_dist = net_size \<and> list_all (\<lambda>row. length row = deci_num) deci_dist"

text \<open>
  Lines 148--150, 286--287, 332--333, 344--345: a row divided by its sum. A zero sum makes
  numpy store nan (or inf) in every entry, with a warning and no exception. A row without
  entries (\<open>deci_num = 0\<close>) has the sum 0 and no entry to divide: it stays empty.
\<close>

definition normalize :: "real list \<Rightarrow> real list outcome" where
  "normalize row =
     (let sum_temp = sum_list row in
      if row = [] then Returns []
      else if sum_temp = 0 then NonFinite else Returns (map (\<lambda>x. x / sum_temp) row))"


text \<open>
  Lines 152 and 212: \<open>np.argmax\<close> along a row gives the first index of the largest entry,
  and raises ValueError on an empty row.
\<close>

fun argmax_from :: "real \<Rightarrow> nat \<Rightarrow> nat \<Rightarrow> real list \<Rightarrow> nat" where
  "argmax_from best best_i k [] = best_i"
| "argmax_from best best_i k (x # xs) =
     (if best < x then argmax_from x k (Suc k) xs else argmax_from best best_i (Suc k) xs)"

definition argmax :: "real list \<Rightarrow> nat outcome" where
  "argmax row = (case row of [] \<Rightarrow> Raises ValueError | x # xs \<Rightarrow> Returns (argmax_from x 0 1 xs))"

fun dominant_decisions :: "real list list \<Rightarrow> nat list outcome" where
  "dominant_decisions [] = Returns []"
| "dominant_decisions (row # deci_dist) =
     bind (argmax row) (\<lambda>d. bind (dominant_decisions deci_dist) (\<lambda>ds. Returns (d # ds)))"

subsection \<open>Convergence of a node with its neighbours (lines 271--276)\<close>

fun is_converged :: "nat list \<Rightarrow> nat \<Rightarrow> nat list \<Rightarrow> bool outcome" where
  "is_converged deci_domi host_domi [] = Returns True"
| "is_converged deci_domi host_domi (neighbor # rest) =
     (if \<not> neighbor < length deci_domi then Raises IndexError
      else if host_domi \<noteq> deci_domi ! neighbor then Returns False
      else is_converged deci_domi host_domi rest)"

subsection \<open>Averaging (lines 281--287 and 339--345)\<close>

fun accumulate :: "real list list \<Rightarrow> real list \<Rightarrow> nat list \<Rightarrow> real list outcome" where
  "accumulate deci_dist_t acc [] = Returns acc"
| "accumulate deci_dist_t acc (neighbor # rest) =
     (if \<not> neighbor < length deci_dist_t then Raises IndexError
      else accumulate deci_dist_t (map2 (+) acc (deci_dist_t ! neighbor)) rest)"

definition average_step :: "real list list \<Rightarrow> nat \<Rightarrow> nat list \<Rightarrow> real list outcome" where
  "average_step deci_dist_t i neighbors =
     bind (accumulate deci_dist_t (map (\<lambda>x. x * 1) (deci_dist_t ! i)) neighbors) normalize"

fun accumulate_weighted ::
  "nat list \<Rightarrow> real list list \<Rightarrow> real list \<Rightarrow> nat list \<Rightarrow> real list outcome" where
  "accumulate_weighted subsizes deci_dist_t acc [] = Returns acc"
| "accumulate_weighted subsizes deci_dist_t acc (neighbor # rest) =
     (if \<not> neighbor < length deci_dist_t \<or> \<not> neighbor < length subsizes then Raises IndexError
      else accumulate_weighted subsizes deci_dist_t
             (map2 (+) acc (map (\<lambda>x. x * real (subsizes ! neighbor)) (deci_dist_t ! neighbor)))
             rest)"

definition weighted_step ::
  "nat list \<Rightarrow> real list list \<Rightarrow> nat \<Rightarrow> nat list \<Rightarrow> real list outcome" where
  "weighted_step subsizes deci_dist_t i neighbors =
     (if \<not> i < length subsizes then Raises IndexError
      else bind (accumulate_weighted subsizes deci_dist_t
                   (map (\<lambda>x. x * real (subsizes ! i)) (deci_dist_t ! i)) neighbors)
             normalize)"

subsection \<open>Largest distribution difference in a block of nodes (lines 292--301)\<close>

definition l1_diff :: "real list \<Rightarrow> real list \<Rightarrow> real" where
  "l1_diff a b = sum_list (map2 (\<lambda>x y. \<bar>x - y\<bar>) a b)"

fun row_diffs :: "real list list \<Rightarrow> nat \<Rightarrow> nat list \<Rightarrow> real list outcome" where
  "row_diffs deci_dist j_node [] = Returns []"
| "row_diffs deci_dist j_node (k_node # rest) =
     (if \<not> j_node < length deci_dist \<or> \<not> k_node < length deci_dist then Raises IndexError
      else bind (row_diffs deci_dist j_node rest)
             (\<lambda>ds. Returns (l1_diff (deci_dist ! j_node) (deci_dist ! k_node) # ds)))"

fun pair_diffs :: "real list list \<Rightarrow> nat list \<Rightarrow> real list outcome" where
  "pair_diffs deci_dist [] = Returns []"
| "pair_diffs deci_dist (j_node # rest) =
     bind (row_diffs deci_dist j_node rest)
       (\<lambda>ds. bind (pair_diffs deci_dist rest) (\<lambda>ds'. Returns (ds @ ds')))"

text \<open>Line 301: Python's \<open>max\<close> raises ValueError on an empty list.\<close>

definition py_max :: "real list \<Rightarrow> real outcome" where
  "py_max xs = (case xs of [] \<Rightarrow> Raises ValueError | x # rest \<Rightarrow> Returns (fold max rest x))"

subsection \<open>The linear multiplier (lines 302--333)\<close>

definition dist_diff_thres :: real where
  "dist_diff_thres = 3 / 10"

definition dist_diff_power :: real where
  "dist_diff_power = 3 / 10"

text \<open>Lines 316--326: bubble sort of the row, ascending, the indices following the entries.\<close>

definition swap_step :: "nat \<Rightarrow> real list \<times> nat list \<Rightarrow> real list \<times> nat list" where
  "swap_step k st =
     (case st of (dist_temp, sort_index) \<Rightarrow>
        if dist_temp ! k > dist_temp ! (k + 1)
        then (dist_temp[k := dist_temp ! (k + 1), k + 1 := dist_temp ! k],
              sort_index[k := sort_index ! (k + 1), k + 1 := sort_index ! k])
        else st)"

definition bubble_sort :: "nat \<Rightarrow> real list \<Rightarrow> real list \<times> nat list" where
  "bubble_sort deci_num row =
     fold (\<lambda>j. fold swap_step [0..<deci_num - 1 - j]) [0..<deci_num - 1] (row, [0..<deci_num])"

definition multiplier :: "nat \<Rightarrow> real \<Rightarrow> real \<Rightarrow> nat \<Rightarrow> real" where
  "multiplier deci_num small_end large_end j =
     small_end + real j / real (deci_num - 1) * (large_end - small_end)"

definition apply_multiplier ::
  "nat \<Rightarrow> real \<Rightarrow> real \<Rightarrow> nat list \<Rightarrow> real list \<Rightarrow> real list" where
  "apply_multiplier deci_num small_end large_end sort_index row =
     fold (\<lambda>j r. r[sort_index ! j := r ! (sort_index ! j) * multiplier deci_num small_end large_end j])
       [0..<deci_num] row"

text \<open>
  \<open>1.0/deci_num\<close> and \<open>float(j)/(deci_num-1)\<close> are Python divisions: they raise
  ZeroDivisionError on a zero divisor, the first at line 311, the second in the first pass
  of the loop of line 328. \<open>np.power\<close> of a negative ratio is nan, and raises nothing.
\<close>

definition sharpen :: "nat \<Rightarrow> real list \<Rightarrow> real \<Rightarrow> real list outcome" where
  "sharpen deci_num row dist_diff_max =
     (let dist_diff_ratio = dist_diff_max / dist_diff_thres in
      if deci_num = 0 then Raises ZeroDivisionError
      else if deci_num - 1 = 0 then Raises ZeroDivisionError
      else if dist_diff_ratio < 0 then NonFinite
      else
        (let small_end = 1 / real deci_num * (dist_diff_ratio powr dist_diff_power);
             large_end = 2 / real deci_num - small_end;
             sort_index = snd (bubble_sort deci_num row)
         in normalize (apply_multiplier deci_num small_end large_end sort_index row)))"

subsection \<open>The values numpy stores after a division by a zero sum\<close>

text \<open>
  An entry of the matrix is a number, nan, or an infinity. \<open>x / 0.0\<close> is nan for \<open>x = 0\<close>
  and the infinity of the sign of \<open>x\<close> otherwise (a sum of numbers that is zero is \<open>+0.0\<close>
  unless every one of them is zero). These values enter lines 292--301 only: the absolute
  difference of two entries, \<open>np.sum\<close> of such differences, the comparisons \<open>>\<close> of Python's
  \<open>max\<close>, and the comparison with the threshold. Every comparison with nan is false, so
  \<open>max\<close> keeps a nan that comes first and skips one that comes later.
\<close>

datatype fval = Val real | NaN | PInf | NInf

definition divided_by_zero :: "real \<Rightarrow> fval" where
  "divided_by_zero x = (if x = 0 then NaN else if 0 < x then PInf else NInf)"

definition normalize_f :: "real list \<Rightarrow> fval list" where
  "normalize_f row =
     (let sum_temp = sum_list row in
      map (\<lambda>x. if sum_temp = 0 then divided_by_zero x else Val (x / sum_temp)) row)"

fun abs_diff_f :: "fval \<Rightarrow> fval \<Rightarrow> fval" where
  "abs_diff_f (Val x) (Val y) = Val \<bar>x - y\<bar>"
| "abs_diff_f NaN b = NaN"
| "abs_diff_f a NaN = NaN"
| "abs_diff_f PInf PInf = NaN"
| "abs_diff_f NInf NInf = NaN"
| "abs_diff_f a b = PInf"

definition value_of :: "fval \<Rightarrow> real" where
  "value_of a = (case a of Val x \<Rightarrow> x | NaN \<Rightarrow> 0 | PInf \<Rightarrow> 0 | NInf \<Rightarrow> 0)"

definition sum_f :: "fval list \<Rightarrow> fval" where
  "sum_f xs =
     (if NaN \<in> set xs \<or> (PInf \<in> set xs \<and> NInf \<in> set xs) then NaN
      else if PInf \<in> set xs then PInf
      else if NInf \<in> set xs then NInf
      else Val (sum_list (map value_of xs)))"

definition l1_diff_f :: "fval list \<Rightarrow> fval list \<Rightarrow> fval" where
  "l1_diff_f a b = sum_f (map2 abs_diff_f a b)"

fun row_diffs_f :: "fval list list \<Rightarrow> nat \<Rightarrow> nat list \<Rightarrow> fval list outcome" where
  "row_diffs_f deci_dist j_node [] = Returns []"
| "row_diffs_f deci_dist j_node (k_node # rest) =
     (if \<not> j_node < length deci_dist \<or> \<not> k_node < length deci_dist then Raises IndexError
      else bind (row_diffs_f deci_dist j_node rest)
             (\<lambda>ds. Returns (l1_diff_f (deci_dist ! j_node) (deci_dist ! k_node) # ds)))"

fun pair_diffs_f :: "fval list list \<Rightarrow> nat list \<Rightarrow> fval list outcome" where
  "pair_diffs_f deci_dist [] = Returns []"
| "pair_diffs_f deci_dist (j_node # rest) =
     bind (row_diffs_f deci_dist j_node rest)
       (\<lambda>ds. bind (pair_diffs_f deci_dist rest) (\<lambda>ds'. Returns (ds @ ds')))"

fun greater_f :: "fval \<Rightarrow> fval \<Rightarrow> bool" where
  "greater_f (Val x) (Val y) = (x > y)"
| "greater_f NaN b = False"
| "greater_f a NaN = False"
| "greater_f PInf PInf = False"
| "greater_f PInf b = True"
| "greater_f NInf b = False"
| "greater_f (Val x) NInf = True"
| "greater_f (Val x) PInf = False"

definition py_max_f :: "fval list \<Rightarrow> fval outcome" where
  "py_max_f xs =
     (case xs of [] \<Rightarrow> Raises ValueError
      | x # rest \<Rightarrow> Returns (fold (\<lambda>y m. if greater_f y m then y else m) rest x))"

text \<open>
  Lines 305--333 when they are reached, as the row they store: with a negative ratio
  \<open>np.power\<close> is nan, and so are both ends, every multiplier and every entry.
\<close>

definition sharpen_f :: "nat \<Rightarrow> real list \<Rightarrow> real \<Rightarrow> fval list outcome" where
  "sharpen_f deci_num row dist_diff_max =
     (let dist_diff_ratio = dist_diff_max / dist_diff_thres in
      if deci_num = 0 then Raises ZeroDivisionError
      else if deci_num - 1 = 0 then Raises ZeroDivisionError
      else if dist_diff_ratio < 0 then Returns (map (\<lambda>x. NaN) row)
      else
        (let small_end = 1 / real deci_num * (dist_diff_ratio powr dist_diff_power);
             large_end = 2 / real deci_num - small_end;
             sort_index = snd (bubble_sort deci_num row)
         in Returns (normalize_f (apply_multiplier deci_num small_end large_end sort_index row))))"

subsection \<open>The evolution of the distributions (lines 269--345)\<close>

text \<open>
  One pass of the loop body for node \<open>i\<close>, first over a matrix \<open>deci_dist\<close> that may hold
  nan and infinities. \<open>deci_dist_t\<close> is the copy made before the loop: it holds numbers.
  A difference is a sum of absolute values: it is a number, nan or \<open>+inf\<close>, and neither
  nan nor \<open>+inf\<close> is below the threshold. When the largest difference is a number, the
  row of the host holds numbers: the first difference is the host's with its first
  neighbour, it would be nan or inf otherwise, and then so would be the maximum (lemma
  \<open>host_row_numbers\<close> below). Lines 305--333 are then \<open>sharpen_f\<close> on these numbers.
\<close>

definition evolve_node_f ::
  "nat \<Rightarrow> nat list list \<Rightarrow> nat list \<Rightarrow> nat list \<Rightarrow> real list list \<Rightarrow> fval list list \<Rightarrow> nat
     \<Rightarrow> fval list list outcome" where
  "evolve_node_f deci_num connection_lists deci_domi subsizes deci_dist_t deci_dist i =
     (if \<not> i < length deci_domi \<or> \<not> i < length connection_lists then Raises IndexError
      else
        bind (is_converged deci_domi (deci_domi ! i) (connection_lists ! i)) (\<lambda>converged.
          if \<not> i < length deci_dist_t \<or> \<not> i < length deci_dist then Raises IndexError
          else if converged then
            bind (accumulate deci_dist_t (map (\<lambda>x. x * 1) (deci_dist_t ! i))
                    (connection_lists ! i)) (\<lambda>acc.
              let deci_dist1 = deci_dist[i := normalize_f acc];
                  comb_pool = i # connection_lists ! i
              in bind (pair_diffs_f deci_dist1 comb_pool) (\<lambda>dist_diff.
                 bind (py_max_f dist_diff) (\<lambda>dist_diff_max.
                   case dist_diff_max of
                     Val m \<Rightarrow>
                       if m < dist_diff_thres then
                         bind (sharpen_f deci_num (map value_of (deci_dist1 ! i)) m)
                           (\<lambda>row. Returns (deci_dist1[i := row]))
                       else Returns deci_dist1
                   | NaN \<Rightarrow> Returns deci_dist1
                   | PInf \<Rightarrow> Returns deci_dist1
                   | NInf \<Rightarrow> Returns deci_dist1)))
          else if \<not> i < length subsizes then Raises IndexError
          else
            bind (accumulate_weighted subsizes deci_dist_t
                    (map (\<lambda>x. x * real (subsizes ! i)) (deci_dist_t ! i))
                    (connection_lists ! i))
              (\<lambda>acc. Returns (deci_dist[i := normalize_f acc]))))"

fun evolve_order_f ::
  "nat \<Rightarrow> nat list list \<Rightarrow> nat list \<Rightarrow> nat list \<Rightarrow> real list list \<Rightarrow> nat list \<Rightarrow> fval list list
     \<Rightarrow> fval list list outcome" where
  "evolve_order_f deci_num connection_lists deci_domi subsizes deci_dist_t [] deci_dist =
     Returns deci_dist"
| "evolve_order_f deci_num connection_lists deci_domi subsizes deci_dist_t (i # rest) deci_dist =
     bind (evolve_node_f deci_num connection_lists deci_domi subsizes deci_dist_t deci_dist i)
       (evolve_order_f deci_num connection_lists deci_domi subsizes deci_dist_t rest)"

text \<open>
  The same pass over a matrix of numbers, as long as every sum it divides by is not zero.
  The distribution differences of line 300 are read from \<open>deci_dist\<close>, after row \<open>i\<close> has
  received the average. After a zero sum in the averaging step the pass goes on with
  lines 292--301 over the matrix that holds nan or inf in row \<open>i\<close>: it is \<open>evolve_node_f\<close>
  from there, and it ends with \<open>NonFinite\<close> unless that raises. A zero sum in the
  divergent branch or after the multiplier is the last step of the pass.
\<close>

definition evolve_node ::
  "nat \<Rightarrow> nat list list \<Rightarrow> nat list \<Rightarrow> nat list \<Rightarrow> real list list \<Rightarrow> real list list \<Rightarrow> nat
     \<Rightarrow> real list list outcome" where
  "evolve_node deci_num connection_lists deci_domi subsizes deci_dist_t deci_dist i =
     (if \<not> i < length deci_domi \<or> \<not> i < length connection_lists then Raises IndexError
      else
        bind (is_converged deci_domi (deci_domi ! i) (connection_lists ! i)) (\<lambda>converged.
          if \<not> i < length deci_dist_t \<or> \<not> i < length deci_dist then Raises IndexError
          else if converged then
            (case average_step deci_dist_t i (connection_lists ! i) of
               Raises e \<Rightarrow> Raises e
             | NonFinite \<Rightarrow>
                 bind (evolve_node_f deci_num connection_lists deci_domi subsizes deci_dist_t
                         (map (map Val) deci_dist) i)
                   (\<lambda>deci_dist'. NonFinite)
             | Returns avg \<Rightarrow>
                 (let deci_dist1 = deci_dist[i := avg];
                      comb_pool = i # connection_lists ! i
                  in bind (pair_diffs deci_dist1 comb_pool) (\<lambda>dist_diff.
                     bind (py_max dist_diff) (\<lambda>dist_diff_max.
                       if dist_diff_max < dist_diff_thres then
                         bind (sharpen deci_num (deci_dist1 ! i) dist_diff_max)
                           (\<lambda>row. Returns (deci_dist1[i := row]))
                       else Returns deci_dist1))))
          else
            bind (weighted_step subsizes deci_dist_t i (connection_lists ! i))
              (\<lambda>row. Returns (deci_dist[i := row]))))"

text \<open>
  The loop of line 270 visits the nodes in the order \<open>0, \<dots>, net_size - 1\<close>; the order is
  a parameter of \<open>evolve_order\<close>, and \<open>evolve\<close> is the program's. A pass that stores nan or
  inf does not end the loop: the passes from that one on are followed by \<open>evolve_order_f\<close>,
  and the loop ends with \<open>NonFinite\<close> unless one of them raises.
\<close>

fun evolve_order ::
  "nat \<Rightarrow> nat list list \<Rightarrow> nat list \<Rightarrow> nat list \<Rightarrow> real list list \<Rightarrow> nat list \<Rightarrow> real list list
     \<Rightarrow> real list list outcome" where
  "evolve_order deci_num connection_lists deci_domi subsizes deci_dist_t [] deci_dist =
     Returns deci_dist"
| "evolve_order deci_num connection_lists deci_domi subsizes deci_dist_t (i # rest) deci_dist =
     (case evolve_node deci_num connection_lists deci_domi subsizes deci_dist_t deci_dist i of
        Raises e \<Rightarrow> Raises e
      | NonFinite \<Rightarrow>
          bind (evolve_order_f deci_num connection_lists deci_domi subsizes deci_dist_t
                  (i # rest) (map (map Val) deci_dist))
            (\<lambda>deci_dist'. NonFinite)
      | Returns deci_dist' \<Rightarrow>
          evolve_order deci_num connection_lists deci_domi subsizes deci_dist_t rest deci_dist')"

definition evolve ::
  "nat \<Rightarrow> nat \<Rightarrow> nat list list \<Rightarrow> nat list \<Rightarrow> nat list \<Rightarrow> real list list \<Rightarrow> real list list outcome" where
  "evolve net_size deci_num connection_lists deci_domi subsizes deci_dist =
     (let deci_dist_t = deci_dist
      in evolve_order deci_num connection_lists deci_domi subsizes deci_dist_t [0..<net_size]
           deci_dist)"

subsection \<open>One round of the simulation cycle (lines 211--345)\<close>

record round_state =
  deci_dist :: "real list list"
  deci_domi :: "nat list"
  subgroups :: "nat list list"
  subsizes :: "nat list"

definition round_step ::
  "nat \<Rightarrow> nat \<Rightarrow> nat list list \<Rightarrow> round_state \<Rightarrow> round_state outcome" where
  "round_step net_size deci_num connection_lists st =
     bind (dominant_decisions (deci_dist st)) (\<lambda>domi.
     bind (detect_subgroups net_size connection_lists domi) (\<lambda>sgs.
     bind (update_subsizes net_size sgs (subsizes st)) (\<lambda>sizes.
     bind (evolve net_size deci_num connection_lists domi sizes (deci_dist st)) (\<lambda>dd.
       Returns \<lparr>deci_dist = dd, deci_domi = domi, subgroups = sgs, subsizes = sizes\<rparr>))))"

subsection \<open>The network (lines 81--100)\<close>

text \<open>
  Lines 81--100: two nodes of the honeycomb grid are connected when their coordinates
  differ by one step. The matrix \<open>connections\<close> is filled for \<open>i < j\<close> and mirrored; the
  list of node \<open>i\<close> holds the \<open>j\<close> with a nonzero entry, in ascending order. \<open>nodes[i]\<close>
  raises IndexError when the file has fewer positions than \<open>net_size\<close>.
\<close>

definition are_connected :: "int \<times> int \<Rightarrow> int \<times> int \<Rightarrow> bool" where
  "are_connected p q =
     (let diff_x = fst p - fst q; diff_y = snd p - snd q
      in \<bar>diff_x\<bar> + \<bar>diff_y\<bar> = 1 \<or> diff_x * diff_y = - 1)"

definition connections :: "(int \<times> int) list \<Rightarrow> nat \<Rightarrow> nat \<Rightarrow> bool" where
  "connections nodes i j =
     (if i < j then are_connected (nodes ! i) (nodes ! j)
      else if j < i then are_connected (nodes ! j) (nodes ! i)
      else False)"

definition build_connection_lists :: "nat \<Rightarrow> (int \<times> int) list \<Rightarrow> nat list list outcome" where
  "build_connection_lists net_size nodes =
     (if 2 \<le> net_size \<and> length nodes < net_size then Raises IndexError
      else Returns (map (\<lambda>i. filter (connections nodes i) [0..<net_size]) [0..<net_size]))"

section \<open>Notions used in the statements\<close>

text \<open>
  The network the program builds (lines 82--100) has, for every node, a list of distinct
  neighbours within range, without the node itself, and the relation is symmetric: this is
  \<open>wf_net\<close>. The edges between nodes of the same dominant decision are \<open>same_edges\<close>, and
  \<open>component\<close> is the set of nodes reachable along them.
\<close>

definition wf_net :: "nat \<Rightarrow> nat list list \<Rightarrow> bool" where
  "wf_net N conn \<longleftrightarrow>
     length conn = N \<and>
     (\<forall>i\<in>set [0..<N]. distinct (conn ! i) \<and> i \<notin> set (conn ! i) \<and>
        (\<forall>j\<in>set (conn ! i). j < N \<and> i \<in> set (conn ! j)))"

definition same_edges :: "nat list list \<Rightarrow> nat list \<Rightarrow> (nat \<times> nat) set" where
  "same_edges conn domi = {(u, v). u < length conn \<and> v \<in> set (conn ! u) \<and> domi ! u = domi ! v}"

definition component :: "nat list list \<Rightarrow> nat list \<Rightarrow> nat \<Rightarrow> nat set" where
  "component conn domi v = {u. (v, u) \<in> (same_edges conn domi)\<^sup>*}"

text \<open>The invariants of the inner and of the outer loop of the subgroup search.\<close>

definition search_inv ::
  "nat \<Rightarrow> nat list list \<Rightarrow> nat list \<Rightarrow> nat \<Rightarrow> nat list \<Rightarrow> nat list \<Rightarrow> nat list \<Rightarrow> nat \<Rightarrow> bool" where
  "search_inv N conn domi c P S pm k \<longleftrightarrow>
     distinct P \<and> set P \<subseteq> {0..<N} \<and> distinct pm \<and> set pm \<subseteq> {0..<N} \<and>
     distinct S \<and> set S \<subseteq> {0..<N} \<and> set S \<inter> set P = {} \<and>
     (\<forall>x\<in>set pm. domi ! x = c \<longrightarrow> x \<in> set P) \<and>
     (\<forall>x\<in>set (take k pm). domi ! x \<noteq> c) \<and>
     (\<forall>s\<in>set S. domi ! s = c) \<and>
     (\<forall>s\<in>set S. \<forall>w\<in>set (conn ! s). w \<in> set S \<or> w \<in> set pm \<or> w \<notin> set P) \<and>
     (\<forall>x\<in>set pm. \<exists>s\<in>set S. x \<in> set (conn ! s))"

definition search_post ::
  "nat list list \<Rightarrow> nat list \<Rightarrow> nat \<Rightarrow> nat list \<Rightarrow> nat list \<Rightarrow> nat list \<Rightarrow> nat list \<Rightarrow> bool" where
  "search_post conn domi c P S P' S' \<longleftrightarrow>
     distinct P' \<and> distinct S' \<and> (\<exists>ys. S' = S @ ys) \<and> set S' \<inter> set P' = {} \<and>
     set P' \<union> set S' = set P \<union> set S \<and>
     (\<forall>s\<in>set S'. domi ! s = c) \<and>
     (\<forall>s\<in>set S'. \<forall>w\<in>set (conn ! s). domi ! w = c \<longrightarrow> w \<in> set S' \<or> w \<notin> set P) \<and>
     (\<forall>s\<in>set S'. \<exists>s0\<in>set S. (s0, s) \<in> (same_edges conn domi)\<^sup>*)"

definition outer_inv :: "nat \<Rightarrow> nat list list \<Rightarrow> nat list \<Rightarrow> nat list \<Rightarrow> nat list list \<Rightarrow> bool" where
  "outer_inv N conn domi P sgs \<longleftrightarrow>
     distinct P \<and> set P \<subseteq> {0..<N} \<and> distinct (concat sgs) \<and>
     set (concat sgs) = {0..<N} - set P \<and>
     (\<forall>sg\<in>set sgs. sg \<noteq> [] \<and> set sg = component conn domi (hd sg)) \<and>
     (\<forall>u v. (u, v) \<in> same_edges conn domi \<longrightarrow> u \<notin> set P \<longrightarrow> v \<notin> set P)"

text \<open>The bubble sort keeps the entries and their indices together.\<close>

definition paired :: "real list \<Rightarrow> real list \<times> nat list \<Rightarrow> bool" where
  "paired row st \<longleftrightarrow>
     length (fst st) = length row \<and> length (snd st) = length row \<and> distinct (snd st) \<and>
     set (snd st) = {0..<length row} \<and> fst st = map ((!) row) (snd st)"

text \<open>The two ends of the linear multiplier, and the sum the multiplied row is divided by.\<close>

definition small_end_of :: "nat \<Rightarrow> real \<Rightarrow> real" where
  "small_end_of D dmax = 1 / real D * ((dmax / dist_diff_thres) powr dist_diff_power)"

definition large_end_of :: "nat \<Rightarrow> real \<Rightarrow> real" where
  "large_end_of D dmax = 2 / real D - small_end_of D dmax"

definition ranked_sum :: "nat \<Rightarrow> real list \<Rightarrow> real \<Rightarrow> real" where
  "ranked_sum D row dmax =
     (\<Sum>j = 0..<D. row ! (snd (bubble_sort D row) ! j) *
                     multiplier D (small_end_of D dmax) (large_end_of D dmax) j)"

text \<open>A distribution: nonnegative entries that sum to 1.\<close>

definition valid_row :: "nat \<Rightarrow> real list \<Rightarrow> bool" where
  "valid_row D row \<longleftrightarrow> length row = D \<and> list_all (\<lambda>x. 0 \<le> x) row \<and> sum_list row = 1"

definition valid_dist :: "nat \<Rightarrow> nat \<Rightarrow> real list list \<Rightarrow> bool" where
  "valid_dist N D dd \<longleftrightarrow> length dd = N \<and> list_all (valid_row D) dd"

text \<open>
  The simulation cycle (line 194) runs one round after another: \<open>round_rel\<close> relates the
  state before a round that returns to the state after it.
\<close>

definition round_rel :: "nat \<Rightarrow> nat \<Rightarrow> nat list list \<Rightarrow> (round_state \<times> round_state) set" where
  "round_rel N D conn = {(st, st'). round_step N D conn st = Returns st'}"

section \<open>A node without neighbours\<close>

text \<open>
  Claim C5. A node with no neighbours is classified as converged, and its averaging step
  gives its own row divided by its sum; but the block of line 292 then holds the host alone,
  the list of distribution differences is empty, and \<open>max\<close> of line 301 raises ValueError:
  the update of such a node does not return a distribution.
\<close>

theorem isolated_node_update_raises:
  assumes "i < length domi" and "i < length conn" and "conn ! i = []"
    and "i < length ddt" and "i < length dd" and "sum_list (ddt ! i) \<noteq> 0"
  shows "is_converged domi (domi ! i) (conn ! i) = Returns True \<and>
         average_step ddt i (conn ! i) = Returns (map (\<lambda>x. x / sum_list (ddt ! i)) (ddt ! i)) \<and>
         evolve_node D conn domi sz ddt dd i = Raises ValueError"
  using assms by (simp add: evolve_node_def average_step_def normalize_def py_max_def Let_def)

theorem isolated_node_update_raises_witness:
  "is_converged [0] ([0] ! 0) ([[]] ! 0) = Returns True \<and>
   average_step [[1/2, 1/2]] 0 ([[]] ! 0) = Returns [1/2, 1/2] \<and>
   evolve_node 2 [[]] [0] [1] [[1/2, 1/2]] [[1/2, 1/2]] 0 = Raises ValueError \<and>
   round_step 1 2 [[]] \<lparr>deci_dist = [[1/2, 1/2]], deci_domi = [0], subgroups = [], subsizes = [0]\<rparr>
     = Raises ValueError"
  using isolated_node_update_raises[of 0 "[0]" "[[]]" "[[1/2, 1/2]]" "[[1/2, 1/2]]" 2 "[1]"]
  by (simp add: round_step_def argmax_def detect_subgroups_def find_subgroups.simps
        search_members.simps update_subsizes_def evolve_def)

section \<open>Rows and their sums\<close>

lemma shaped_row: "shaped N D m \<Longrightarrow> n < N \<Longrightarrow> length (m ! n) = D"
  by (simp add: shaped_def list_all_length)

lemma shaped_length: "shaped N D m \<Longrightarrow> length m = N"
  by (simp add: shaped_def)

lemma map2_add_nth:
  "length a = length b \<Longrightarrow> map2 (+) a b = map (\<lambda>d. a ! d + b ! d) [0..<length a]"
  by (rule nth_equalityI) auto

lemma accumulate_closed:
  "\<forall>n\<in>set ns. n < length m \<and> length (m ! n) = length acc \<Longrightarrow>
   accumulate m acc ns = Returns (map (\<lambda>d. acc ! d + (\<Sum>n\<leftarrow>ns. m ! n ! d)) [0..<length acc])"
proof (induction ns arbitrary: acc)
  case Nil
  show ?case by (simp add: map_nth)
next
  case (Cons n ns)
  let ?acc = "map2 (+) acc (m ! n)"
  from Cons.prems have len: "length (m ! n) = length acc" and n: "n < length m" by auto
  then have acc: "?acc = map (\<lambda>d. acc ! d + m ! n ! d) [0..<length acc]"
    by (simp add: map2_add_nth)
  have "\<forall>k\<in>set ns. k < length m \<and> length (m ! k) = length ?acc"
    using Cons.prems len by simp
  from Cons.IH[OF this] show ?case
    using n len by (simp add: acc add.assoc)
qed

lemma accumulate_weighted_closed:
  "\<forall>n\<in>set ns. n < length m \<and> n < length sz \<and> length (m ! n) = length acc \<Longrightarrow>
   accumulate_weighted sz m acc ns =
     Returns (map (\<lambda>d. acc ! d + (\<Sum>n\<leftarrow>ns. m ! n ! d * real (sz ! n))) [0..<length acc])"
proof (induction ns arbitrary: acc)
  case Nil
  show ?case by (simp add: map_nth)
next
  case (Cons n ns)
  let ?row = "map (\<lambda>x. x * real (sz ! n)) (m ! n)"
  let ?acc = "map2 (+) acc ?row"
  from Cons.prems have len: "length (m ! n) = length acc" and n: "n < length m" "n < length sz"
    by auto
  then have acc: "?acc = map (\<lambda>d. acc ! d + m ! n ! d * real (sz ! n)) [0..<length acc]"
    by (simp add: map2_add_nth)
  have "\<forall>k\<in>set ns. k < length m \<and> k < length sz \<and> length (m ! k) = length ?acc"
    using Cons.prems len by simp
  from Cons.IH[OF this] show ?case
    using n len by (simp add: acc add.assoc)
qed

lemma sum_list_map_upt_sum_list:
  "(\<Sum>d\<leftarrow>[0..<D]. (\<Sum>n\<leftarrow>ns. f n d)) = (\<Sum>n\<leftarrow>ns. (\<Sum>d\<leftarrow>[0..<D]. f n d :: real))"
  by (induction ns) (simp_all add: sum_list_addf)

lemma sum_list_nth_upt: "(\<Sum>d\<leftarrow>[0..<length xs]. xs ! d) = sum_list xs"
  by (simp add: map_nth)

lemma normalize_length:
  "normalize row = Returns r \<Longrightarrow> length r = length row"
  by (auto simp: normalize_def Let_def split: if_splits)

lemma normalize_sum:
  "normalize row = Returns r \<Longrightarrow> row \<noteq> [] \<Longrightarrow> sum_list r = 1 \<and> length r = length row"
proof -
  assume a: "normalize row = Returns r" and ne: "row \<noteq> []"
  then have nz: "sum_list row \<noteq> 0" and r: "r = map (\<lambda>x. x / sum_list row) row"
    by (auto simp: normalize_def Let_def split: if_splits)
  have "sum_list r = (\<Sum>x\<leftarrow>row. x * (1 / sum_list row))" by (simp add: r)
  also have "\<dots> = sum_list row * (1 / sum_list row)"
    using sum_list_mult_const[of "\<lambda>x. x" "1 / sum_list row" row] by simp
  finally show ?thesis using nz r by simp
qed

lemma sum_list_rows:
  assumes "\<forall>n\<in>set ns. length (m ! n) = D"
  shows "(\<Sum>d\<leftarrow>[0..<D]. (\<Sum>n\<leftarrow>ns. f n * m ! n ! d)) = (\<Sum>n\<leftarrow>ns. f n * sum_list (m ! n) :: real)"
proof -
  have "(\<Sum>d\<leftarrow>[0..<D]. (\<Sum>n\<leftarrow>ns. f n * m ! n ! d)) = (\<Sum>n\<leftarrow>ns. (\<Sum>d\<leftarrow>[0..<D]. f n * m ! n ! d))"
    by (rule sum_list_map_upt_sum_list)
  also have "\<dots> = (\<Sum>n\<leftarrow>ns. f n * sum_list (m ! n))"
  proof (rule arg_cong[where f = sum_list], rule map_cong[OF refl])
    fix n assume "n \<in> set ns"
    then have "length (m ! n) = D" using assms by simp
    then have "(\<Sum>d\<leftarrow>[0..<D]. m ! n ! d) = sum_list (m ! n)"
      using sum_list_nth_upt[of "m ! n"] by simp
    then show "(\<Sum>d\<leftarrow>[0..<D]. f n * m ! n ! d) = f n * sum_list (m ! n)"
      by (simp add: sum_list_const_mult)
  qed
  finally show ?thesis .
qed

lemma average_step_closed:
  assumes "shaped N D ddt" and "i < N" and "\<forall>n\<in>set nbrs. n < N"
  shows "average_step ddt i nbrs =
     (if 0 < D \<and> (\<Sum>n\<leftarrow>i # nbrs. sum_list (ddt ! n)) = 0 then NonFinite
      else Returns (map (\<lambda>d. (\<Sum>n\<leftarrow>i # nbrs. ddt ! n ! d) / (\<Sum>n\<leftarrow>i # nbrs. sum_list (ddt ! n)))
                      [0..<D]))"
proof -
  let ?acc = "map (\<lambda>x. x * 1) (ddt ! i)"
  have len: "\<forall>n\<in>set (i # nbrs). length (ddt ! n) = D"
    using assms by (auto simp: shaped_row)
  have "\<forall>n\<in>set nbrs. n < length ddt \<and> length (ddt ! n) = length ?acc"
    using assms len by (auto simp: shaped_length)
  from accumulate_closed[OF this]
  have acc: "accumulate ddt ?acc nbrs = Returns (map (\<lambda>d. (\<Sum>n\<leftarrow>i # nbrs. ddt ! n ! d)) [0..<D])"
    using len by simp
  have tot: "sum_list (map (\<lambda>d. (\<Sum>n\<leftarrow>i # nbrs. ddt ! n ! d)) [0..<D]) = (\<Sum>n\<leftarrow>i # nbrs. sum_list (ddt ! n))"
    using sum_list_rows[OF len, of "\<lambda>n. 1"] by simp
  show ?thesis
    unfolding average_step_def acc bind.simps normalize_def Let_def tot
    by (simp add: o_def)
qed

section \<open>The equally weighted average of a converged node\<close>

text \<open>
  Claim C7. For a node \<open>i\<close> with neighbours \<open>nbrs\<close>, the averaging step of lines 281--287
  returns, entry by entry, the sum of the rows of \<open>i\<close> and of its neighbours in the copy
  \<open>deci_dist_t\<close>, each with weight 1, divided by the sum of all these entries (and stores
  non-finite values when that sum is zero and the rows have an entry). On the path 0--1--2 with equal dominant
  decisions node 1 is converged, and when the three rows sum to 1 its average is the
  entrywise mean of the three rows.
\<close>

theorem average_step_equal_weights:
  assumes "shaped N D ddt" and "i < N" and "\<forall>n\<in>set nbrs. n < N"
  shows "average_step ddt i nbrs =
           (if 0 < D \<and> (\<Sum>n\<leftarrow>i # nbrs. sum_list (ddt ! n)) = 0 then NonFinite
            else Returns (map (\<lambda>d. (\<Sum>n\<leftarrow>i # nbrs. 1 * ddt ! n ! d) /
                                     (\<Sum>n\<leftarrow>i # nbrs. sum_list (ddt ! n))) [0..<D])) \<and>
         (N = 3 \<and> i = 1 \<and> nbrs = [[1], [0, 2], [1]] ! 1 \<and> length domi = 3 \<and>
          domi ! 0 = domi ! 1 \<and> domi ! 2 = domi ! 1 \<and> (\<forall>n<3. sum_list (ddt ! n) = 1) \<longrightarrow>
            is_converged domi (domi ! 1) ([[1], [0, 2], [1]] ! 1) = Returns True \<and>
            average_step ddt 1 ([[1], [0, 2], [1]] ! 1) =
              Returns (map (\<lambda>d. (ddt ! 0 ! d + ddt ! 1 ! d + ddt ! 2 ! d) / 3) [0..<D]))"
proof (intro conjI impI)
  show "average_step ddt i nbrs =
           (if 0 < D \<and> (\<Sum>n\<leftarrow>i # nbrs. sum_list (ddt ! n)) = 0 then NonFinite
            else Returns (map (\<lambda>d. (\<Sum>n\<leftarrow>i # nbrs. 1 * ddt ! n ! d) /
                                     (\<Sum>n\<leftarrow>i # nbrs. sum_list (ddt ! n))) [0..<D]))"
    using average_step_closed[OF assms] by simp
next
  assume h: "N = 3 \<and> i = 1 \<and> nbrs = [[1], [0, 2], [1]] ! 1 \<and> length domi = 3 \<and>
          domi ! 0 = domi ! 1 \<and> domi ! 2 = domi ! 1 \<and> (\<forall>n<3. sum_list (ddt ! n) = 1)"
  then show "is_converged domi (domi ! 1) ([[1], [0, 2], [1]] ! 1) = Returns True" by simp
  from h have s: "sum_list (ddt ! 0) = 1" "sum_list (ddt ! Suc 0) = 1" "sum_list (ddt ! 2) = 1"
    by auto
  from h have n: "nbrs = [0, 2]" "i = 1" by simp_all
  show "average_step ddt 1 ([[1], [0, 2], [1]] ! 1) =
              Returns (map (\<lambda>d. (ddt ! 0 ! d + ddt ! 1 ! d + ddt ! 2 ! d) / 3) [0..<D])"
    using average_step_closed[OF assms] unfolding n by (simp add: s add_ac)
qed

theorem average_step_equal_weights_witness:
  "average_step [[9/10, 1/10], [1/2, 1/2], [1/2, 1/2]] 1 [0, 2] = Returns [19/30, 11/30] \<and>
   is_converged [0, 0, 0] 0 [0, 2] = Returns True"
  using average_step_equal_weights[of 3 2 "[[9/10, 1/10], [1/2, 1/2], [1/2, 1/2]]" 1 "[0, 2]" "[0, 0, 0]"]
  by (simp add: shaped_def upt_conv_Cons)

section \<open>The weighted sum of a divergent node\<close>

lemma weighted_step_closed:
  assumes "shaped N D ddt" and "length sz = N" and "i < N" and "\<forall>n\<in>set nbrs. n < N"
  shows "weighted_step sz ddt i nbrs =
     (if 0 < D \<and> (\<Sum>n\<leftarrow>i # nbrs. real (sz ! n) * sum_list (ddt ! n)) = 0 then NonFinite
      else Returns (map (\<lambda>d. (\<Sum>n\<leftarrow>i # nbrs. real (sz ! n) * ddt ! n ! d) /
                               (\<Sum>n\<leftarrow>i # nbrs. real (sz ! n) * sum_list (ddt ! n))) [0..<D]))"
proof -
  let ?acc = "map (\<lambda>x. x * real (sz ! i)) (ddt ! i)"
  have len: "\<forall>n\<in>set (i # nbrs). length (ddt ! n) = D"
    using assms by (auto simp: shaped_row)
  have "\<forall>n\<in>set nbrs. n < length ddt \<and> n < length sz \<and> length (ddt ! n) = length ?acc"
    using assms len by (auto simp: shaped_length)
  from accumulate_weighted_closed[OF this]
  have acc: "accumulate_weighted sz ddt ?acc nbrs =
      Returns (map (\<lambda>d. (\<Sum>n\<leftarrow>i # nbrs. real (sz ! n) * ddt ! n ! d)) [0..<D])"
    using len by (simp add: mult.commute)
  have tot: "sum_list (map (\<lambda>d. (\<Sum>n\<leftarrow>i # nbrs. real (sz ! n) * ddt ! n ! d)) [0..<D]) =
      (\<Sum>n\<leftarrow>i # nbrs. real (sz ! n) * sum_list (ddt ! n))"
    using sum_list_rows[OF len, of "\<lambda>n. real (sz ! n)"] by simp
  have i: "i < length sz" using assms by simp
  show ?thesis
    unfolding weighted_step_def acc bind.simps normalize_def Let_def tot
    using i by (simp add: o_def)
qed

section \<open>The bubble sort sorts, and the indices follow\<close>

lemma paired_swap_step:
  assumes "paired row st" and "Suc k < length row"
  shows "paired row (swap_step k st)"
proof (cases st)
  case (Pair dt si)
  with assms have p: "length dt = length row" "length si = length row" "distinct si"
    "set si = {0..<length row}" "dt = map ((!) row) si"
    by (simp_all add: paired_def)
  from p assms(2) have k: "k < length si" "Suc k < length si" by simp_all
  have "map ((!) row) (si[k := si ! Suc k, Suc k := si ! k]) =
        (map ((!) row) si)[k := map ((!) row) si ! Suc k, Suc k := map ((!) row) si ! k]"
    using k by (simp add: map_update)
  with p k show ?thesis
    unfolding Pair swap_step_def paired_def by simp
qed

lemma paired_fold:
  assumes "paired row st" and "\<forall>k\<in>set ks. Suc k < length row"
  shows "paired row (fold swap_step ks st)"
  using assms by (induction ks arbitrary: st) (simp_all add: paired_swap_step)

lemma paired_passes:
  assumes "paired row st" and "n \<le> length row - 1"
  shows "paired row (fold (\<lambda>j. fold swap_step [0..<length row - 1 - j]) [0..<n] st)"
  using assms
proof (induction n)
  case 0
  then show ?case by simp
next
  case (Suc n)
  then have "paired row (fold (\<lambda>j. fold swap_step [0..<length row - 1 - j]) [0..<n] st)" by simp
  then have "paired row (fold swap_step [0..<length row - 1 - n]
               (fold (\<lambda>j. fold swap_step [0..<length row - 1 - j]) [0..<n] st))"
    by (rule paired_fold) auto
  then show ?case by simp
qed

lemma paired_init: "paired row (row, [0..<length row])"
  by (simp add: paired_def map_nth)

text \<open>One pass up to position \<open>m\<close> carries the largest of the first \<open>m + 1\<close> entries to \<open>m\<close>.\<close>

lemma swap_pass:
  assumes "m < length (fst st)"
  shows "length (fst (fold swap_step [0..<m] st)) = length (fst st) \<and>
         (\<forall>i. m < i \<longrightarrow> fst (fold swap_step [0..<m] st) ! i = fst st ! i) \<and>
         (\<forall>i\<le>m. fst (fold swap_step [0..<m] st) ! i \<le> fst (fold swap_step [0..<m] st) ! m) \<and>
         (\<forall>c. (\<forall>i\<le>m. fst st ! i \<le> c) \<longrightarrow> (\<forall>i\<le>m. fst (fold swap_step [0..<m] st) ! i \<le> c))"
  using assms
proof (induction m)
  case 0
  then show ?case by simp
next
  case (Suc m)
  obtain d1 s1 where st1: "fold swap_step [0..<m] st = (d1, s1)" by (cases "fold swap_step [0..<m] st")
  from Suc have m: "m < length (fst st)" "Suc m < length (fst st)" by simp_all
  from Suc.IH[OF m(1)] st1 have
    len: "length d1 = length (fst st)" and
    same: "\<forall>i. m < i \<longrightarrow> d1 ! i = fst st ! i" and
    top: "\<forall>i\<le>m. d1 ! i \<le> d1 ! m" and
    bnd: "\<forall>c. (\<forall>i\<le>m. fst st ! i \<le> c) \<longrightarrow> (\<forall>i\<le>m. d1 ! i \<le> c)"
    by simp_all
  have fold_eq: "fold swap_step [0..<Suc m] st = swap_step m (d1, s1)"
    by (simp add: st1)
  have bnd1: "\<forall>i\<le>Suc m. d1 ! i \<le> c" if "\<forall>i\<le>Suc m. fst st ! i \<le> c" for c
  proof (intro allI impI)
    fix i assume "i \<le> Suc m"
    show "d1 ! i \<le> c"
    proof (cases "i \<le> m")
      case True
      with bnd that show ?thesis by simp
    next
      case False
      with \<open>i \<le> Suc m\<close> have "i = Suc m" by simp
      with same that show ?thesis by simp
    qed
  qed
  show ?case
  proof (cases "d1 ! m > d1 ! Suc m")
    case False
    then have sw: "swap_step m (d1, s1) = (d1, s1)" by (simp add: swap_step_def)
    have "\<forall>i\<le>Suc m. d1 ! i \<le> d1 ! Suc m"
    proof (intro allI impI)
      fix i assume "i \<le> Suc m"
      then consider "i \<le> m" | "i = Suc m" by linarith
      then show "d1 ! i \<le> d1 ! Suc m"
      proof cases
        case 1
        with top have "d1 ! i \<le> d1 ! m" by simp
        with False show ?thesis by simp
      next
        case 2
        then show ?thesis by simp
      qed
    qed
    with len same bnd1 show ?thesis unfolding fold_eq sw by simp
  next
    case True
    let ?d2 = "d1[m := d1 ! Suc m, Suc m := d1 ! m]"
    from True have sw: "fst (swap_step m (d1, s1)) = ?d2" by (simp add: swap_step_def)
    have l2: "length ?d2 = length (fst st)" using len by simp
    have s2: "\<forall>i. Suc m < i \<longrightarrow> ?d2 ! i = fst st ! i" using same by simp
    have t2: "\<forall>i\<le>Suc m. ?d2 ! i \<le> ?d2 ! Suc m"
    proof (intro allI impI)
      fix i assume "i \<le> Suc m"
      then consider "i < m" | "i = m" | "i = Suc m" by linarith
      then show "?d2 ! i \<le> ?d2 ! Suc m"
      proof cases
        case 1
        with top have "d1 ! i \<le> d1 ! m" by simp
        with 1 m len show ?thesis by simp
      next
        case 2
        with True m len show ?thesis by simp
      next
        case 3
        then show ?thesis by simp
      qed
    qed
    have b2: "\<forall>i\<le>Suc m. ?d2 ! i \<le> c" if "\<forall>i\<le>Suc m. fst st ! i \<le> c" for c
    proof (intro allI impI)
      fix i assume i: "i \<le> Suc m"
      from bnd1[OF that] have b: "\<forall>i\<le>Suc m. d1 ! i \<le> c" .
      from i consider "i < m" | "i = m" | "i = Suc m" by linarith
      then show "?d2 ! i \<le> c"
      proof cases
        case 1
        with b m len show ?thesis by simp
      next
        case 2
        with b m len show ?thesis by simp
      next
        case 3
        with b m len show ?thesis by simp
      qed
    qed
    from l2 s2 t2 b2 show ?thesis unfolding fold_eq sw by blast
  qed
qed

text \<open>After \<open>n\<close> passes the last \<open>n\<close> positions hold their final entries.\<close>

lemma swap_passes:
  assumes "length (fst st) = D" and "n \<le> D - 1"
  shows "length (fst (fold (\<lambda>j. fold swap_step [0..<D - 1 - j]) [0..<n] st)) = D \<and>
         (\<forall>a b. a \<le> b \<and> D - n \<le> b \<and> b < D \<longrightarrow>
            fst (fold (\<lambda>j. fold swap_step [0..<D - 1 - j]) [0..<n] st) ! a
              \<le> fst (fold (\<lambda>j. fold swap_step [0..<D - 1 - j]) [0..<n] st) ! b)"
  using assms(2)
proof (induction n)
  case 0
  with assms(1) show ?case by simp
next
  case (Suc n)
  let ?s1 = "fold (\<lambda>j. fold swap_step [0..<D - 1 - j]) [0..<n] st"
  let ?m = "D - 1 - n"
  let ?s2 = "fold swap_step [0..<?m] ?s1"
  from Suc have len1: "length (fst ?s1) = D" and
    q1: "\<forall>a b. a \<le> b \<and> D - n \<le> b \<and> b < D \<longrightarrow> fst ?s1 ! a \<le> fst ?s1 ! b"
    by simp_all
  from Suc.prems have m: "?m < length (fst ?s1)" "D - Suc n = ?m" "D - n = Suc ?m"
    using len1 by simp_all
  from swap_pass[OF m(1)] have
    len2: "length (fst ?s2) = D" and
    same: "\<forall>i. ?m < i \<longrightarrow> fst ?s2 ! i = fst ?s1 ! i" and
    top: "\<forall>i\<le>?m. fst ?s2 ! i \<le> fst ?s2 ! ?m" and
    bnd: "\<forall>c. (\<forall>i\<le>?m. fst ?s1 ! i \<le> c) \<longrightarrow> (\<forall>i\<le>?m. fst ?s2 ! i \<le> c)"
    using len1 by simp_all
  have eq: "fold (\<lambda>j. fold swap_step [0..<D - 1 - j]) [0..<Suc n] st = ?s2" by simp
  have "fst ?s2 ! a \<le> fst ?s2 ! b" if ab: "a \<le> b" "?m \<le> b" "b < D" for a b
  proof (cases "b = ?m")
    case True
    with ab top show ?thesis by simp
  next
    case False
    with ab have b: "?m < b" by simp
    then have b1: "D - n \<le> b" using m(3) by simp
    from b same have sb: "fst ?s2 ! b = fst ?s1 ! b" by simp
    show ?thesis
    proof (cases "?m < a")
      case True
      with same have "fst ?s2 ! a = fst ?s1 ! a" by simp
      with sb q1 ab b1 show ?thesis by simp
    next
      case False
      then have a: "a \<le> ?m" by simp
      have "\<forall>i\<le>?m. fst ?s1 ! i \<le> fst ?s1 ! b"
        using q1 b b1 ab(3) by simp
      with bnd have "\<forall>i\<le>?m. fst ?s2 ! i \<le> fst ?s1 ! b" by blast
      with a sb show ?thesis by simp
    qed
  qed
  with len2 show ?case unfolding eq m(2) by blast
qed

lemma bubble_sort_sorted:
  assumes "length row = D"
  shows "sorted (fst (bubble_sort D row))"
proof -
  let ?r = "fst (bubble_sort D row)"
  have "length (fst (row, [0..<D])) = D" "D - 1 \<le> D - 1" using assms by simp_all
  from swap_passes[OF this] have
    len: "length ?r = D" and
    q: "\<forall>a b. a \<le> b \<and> D - (D - 1) \<le> b \<and> b < D \<longrightarrow> ?r ! a \<le> ?r ! b"
    unfolding bubble_sort_def by blast+
  have "?r ! a \<le> ?r ! b" if "a \<le> b" "b < length ?r" for a b
  proof (cases "b = 0")
    case True
    with that show ?thesis by simp
  next
    case False
    with that len have "D - (D - 1) \<le> b" by simp
    with q that len show ?thesis by simp
  qed
  then show ?thesis by (simp add: sorted_iff_nth_mono)
qed

lemma bubble_sort_paired:
  assumes "length row = D"
  shows "paired row (bubble_sort D row)"
  using paired_passes[OF paired_init, of "D - 1" row] assms
  by (simp add: bubble_sort_def)

text \<open>What the sort gives: the indices of the row, each once, by ascending entry.\<close>

lemma bubble_sort_index:
  assumes "length row = D"
  shows "length (snd (bubble_sort D row)) = D"
    and "distinct (snd (bubble_sort D row))"
    and "set (snd (bubble_sort D row)) = {0..<D}"
    and "\<And>a b. a \<le> b \<Longrightarrow> b < D \<Longrightarrow>
           row ! (snd (bubble_sort D row) ! a) \<le> row ! (snd (bubble_sort D row) ! b)"
proof -
  let ?dt = "fst (bubble_sort D row)" and ?si = "snd (bubble_sort D row)"
  from bubble_sort_paired[OF assms] have p: "length ?dt = D" "length ?si = D" "distinct ?si"
    "set ?si = {0..<D}" "?dt = map ((!) row) ?si"
    using assms by (simp_all add: paired_def)
  show "length ?si = D" "distinct ?si" "set ?si = {0..<D}" by (fact p)+
  fix a b assume ab: "a \<le> b" "b < D"
  from bubble_sort_sorted[OF assms] ab p(1) have "?dt ! a \<le> ?dt ! b"
    by (simp add: sorted_iff_nth_mono)
  moreover have "?dt ! a = row ! (?si ! a)" "?dt ! b = row ! (?si ! b)"
    using p(2) ab by (subst p(5), simp)+
  ultimately show "row ! (?si ! a) \<le> row ! (?si ! b)" by simp
qed

section \<open>The linear multiplier\<close>

lemma apply_multiplier_upto:
  assumes "distinct si" and "length si = D" and "set si = {0..<D}" and "length row = D"
    and "n \<le> D"
  shows "length (fold (\<lambda>j r. r[si ! j := r ! (si ! j) * f j]) [0..<n] row) = D \<and>
         (\<forall>j<D. fold (\<lambda>j r. r[si ! j := r ! (si ! j) * f j]) [0..<n] row ! (si ! j) =
                  (if j < n then row ! (si ! j) * f j else row ! (si ! j)))"
  using assms(5)
proof (induction n)
  case 0
  with assms show ?case by simp
next
  case (Suc n)
  let ?r = "fold (\<lambda>j r. r[si ! j := r ! (si ! j) * f j]) [0..<n] row"
  from Suc have len: "length ?r = D" and
    ih: "\<forall>j<D. ?r ! (si ! j) = (if j < n then row ! (si ! j) * f j else row ! (si ! j))"
    by simp_all
  from Suc.prems assms have n: "n < length si" "si ! n < D"
    using nth_mem[of n si] by auto
  have eq: "fold (\<lambda>j r. r[si ! j := r ! (si ! j) * f j]) [0..<Suc n] row =
            ?r[si ! n := ?r ! (si ! n) * f n]" by simp
  have "?r[si ! n := ?r ! (si ! n) * f n] ! (si ! j) =
          (if j < Suc n then row ! (si ! j) * f j else row ! (si ! j))" if j: "j < D" for j
  proof (cases "j = n")
    case True
    with ih j n len show ?thesis by simp
  next
    case False
    with assms(1,2) j n have "si ! j \<noteq> si ! n" by (simp add: nth_eq_iff_index_eq)
    with ih j False show ?thesis by simp
  qed
  with len show ?case unfolding eq by simp
qed

lemma apply_multiplier_nth:
  assumes "distinct si" and "length si = D" and "set si = {0..<D}" and "length row = D"
  shows "length (apply_multiplier D s l si row) = D"
    and "\<And>j. j < D \<Longrightarrow>
           apply_multiplier D s l si row ! (si ! j) = row ! (si ! j) * multiplier D s l j"
  using apply_multiplier_upto[OF assms, of D "multiplier D s l"]
  by (simp_all add: apply_multiplier_def)

lemma sum_list_reindex:
  assumes "distinct si" and "length si = D" and "set si = {0..<D}" and "length r = D"
  shows "sum_list r = (\<Sum>j = 0..<D. r ! (si ! j) :: real)"
proof -
  have "bij_betw ((!) si) {0..<D} {0..<D}"
    using bij_betw_nth[OF assms(1), of "{0..<D}" "{0..<D}"] assms(2,3)
    by (simp add: atLeast0LessThan)
  then have "(\<Sum>j\<in>{0..<D}. r ! (si ! j)) = (\<Sum>i\<in>{0..<D}. r ! i)"
    by (rule sum.reindex_bij_betw)
  then show ?thesis using assms(4) by (simp add: sum_list_sum_nth)
qed

lemma apply_multiplier_sum:
  assumes "distinct si" and "length si = D" and "set si = {0..<D}" and "length row = D"
  shows "sum_list (apply_multiplier D s l si row) =
           (\<Sum>j = 0..<D. row ! (si ! j) * multiplier D s l j)"
proof -
  have "sum_list (apply_multiplier D s l si row) =
          (\<Sum>j = 0..<D. apply_multiplier D s l si row ! (si ! j))"
    using assms apply_multiplier_nth(1)[OF assms] by (intro sum_list_reindex) auto
  also have "\<dots> = (\<Sum>j = 0..<D. row ! (si ! j) * multiplier D s l j)"
    using apply_multiplier_nth(2)[OF assms] by simp
  finally show ?thesis .
qed

lemma multiplier_ends:
  assumes "2 \<le> D"
  shows "multiplier D s l 0 = s" and "multiplier D s l (D - 1) = l"
  using assms by (simp_all add: multiplier_def)

lemma multiplier_bounds:
  assumes "2 \<le> D" and "s \<le> l" and "j \<le> D - 1"
  shows "s \<le> multiplier D s l j" and "multiplier D s l j \<le> l"
proof -
  let ?t = "real j / real (D - 1)"
  from assms have t: "0 \<le> ?t" "?t \<le> 1" by simp_all
  from assms(2) have d: "0 \<le> l - s" by simp
  from t(1) d have "0 \<le> ?t * (l - s)" by (rule mult_nonneg_nonneg)
  then show "s \<le> multiplier D s l j" by (simp add: multiplier_def)
  from t(2) d have "?t * (l - s) \<le> 1 * (l - s)" by (rule mult_right_mono)
  then show "multiplier D s l j \<le> l" by (simp add: multiplier_def)
qed


text \<open>The two ends of the multiplier, for a difference below the threshold.\<close>

lemma ends_bounds:
  assumes "0 \<le> dmax" and "dmax < dist_diff_thres" and "0 < D"
  shows "0 \<le> 1 / real D * ((dmax / dist_diff_thres) powr dist_diff_power)"
    and "1 / real D * ((dmax / dist_diff_thres) powr dist_diff_power) < 1 / real D"
    and "1 / real D < 2 / real D - 1 / real D * ((dmax / dist_diff_thres) powr dist_diff_power)"
proof -
  let ?ratio = "dmax / dist_diff_thres"
  from assms have r: "0 \<le> ?ratio" "?ratio < 1" by (simp_all add: dist_diff_thres_def)
  have p0: "0 \<le> ?ratio powr dist_diff_power" by simp
  have "?ratio powr dist_diff_power < 1 powr dist_diff_power"
    using r by (intro powr_less_mono2) (simp_all add: dist_diff_power_def)
  then have p1: "?ratio powr dist_diff_power < 1" by simp
  from assms(3) have D: "0 < 1 / real D" by simp
  show "0 \<le> 1 / real D * (?ratio powr dist_diff_power)" using p0 D by simp
  from mult_strict_left_mono[OF p1 D]
  show lt: "1 / real D * (?ratio powr dist_diff_power) < 1 / real D" by simp
  then show "1 / real D < 2 / real D - 1 / real D * (?ratio powr dist_diff_power)"
    by (simp add: field_simps)
qed

lemma sharpen_unfold:
  assumes "2 \<le> D" and "0 \<le> dmax"
  shows "sharpen D row dmax =
           normalize (apply_multiplier D
             (1 / real D * ((dmax / dist_diff_thres) powr dist_diff_power))
             (2 / real D - 1 / real D * ((dmax / dist_diff_thres) powr dist_diff_power))
             (snd (bubble_sort D row)) row)"
proof -
  from assms(2) have "\<not> dmax / dist_diff_thres < 0" by (simp add: dist_diff_thres_def)
  with assms(1) show ?thesis by (simp add: sharpen_def Let_def)
qed

lemma ends_order:
  assumes "0 \<le> dmax" and "dmax < dist_diff_thres" and "0 < D"
  shows "0 \<le> small_end_of D dmax" and "small_end_of D dmax < large_end_of D dmax"
    and "0 < large_end_of D dmax"
proof -
  note eb = ends_bounds[OF assms]
  show "0 \<le> small_end_of D dmax" using eb(1) by (simp add: small_end_of_def)
  have "small_end_of D dmax < 1 / real D" using eb(2) by (simp add: small_end_of_def)
  moreover have l: "1 / real D < large_end_of D dmax"
    using eb(3) by (simp add: small_end_of_def large_end_of_def)
  ultimately show "small_end_of D dmax < large_end_of D dmax" by simp
  have "0 < 1 / real D" using assms(3) by simp
  from this l show "0 < large_end_of D dmax" by (rule less_trans)
qed

lemma row_top_positive:
  assumes "length row = D" and "2 \<le> D" and "\<forall>x\<in>set row. 0 \<le> x" and "sum_list row = 1"
  shows "0 < row ! (snd (bubble_sort D row) ! (D - 1))"
proof (rule ccontr)
  let ?si = "snd (bubble_sort D row)"
  note bs = bubble_sort_index[OF assms(1)]
  assume "\<not> 0 < row ! (?si ! (D - 1))"
  then have top: "row ! (?si ! (D - 1)) \<le> 0" by simp
  have "row ! (?si ! j) = 0" if "j < D" for j
  proof -
    from that assms(2) have "row ! (?si ! j) \<le> row ! (?si ! (D - 1))"
      by (intro bs(4)) simp_all
    moreover have "?si ! j < length row" using bs(1,3) that assms(1) nth_mem[of j ?si] by auto
    then have "0 \<le> row ! (?si ! j)" using assms(3) by simp
    ultimately show ?thesis using top by simp
  qed
  then have "(\<Sum>j = 0..<D. row ! (?si ! j)) = 0" by simp
  moreover have "sum_list row = (\<Sum>j = 0..<D. row ! (?si ! j))"
    using bs(2,1,3) assms(1) by (rule sum_list_reindex)
  ultimately show False using assms(4) by simp
qed

lemma sharpen_returns:
  assumes "length row = D" and "2 \<le> D" and "\<forall>x\<in>set row. 0 \<le> x" and "sum_list row = 1"
    and "0 \<le> dmax" and "dmax < dist_diff_thres"
  shows "0 < ranked_sum D row dmax"
    and "ranked_sum D row dmax \<le> large_end_of D dmax"
    and "sharpen D row dmax =
           Returns (map (\<lambda>x. x / ranked_sum D row dmax)
             (apply_multiplier D (small_end_of D dmax) (large_end_of D dmax)
                (snd (bubble_sort D row)) row))"
proof -
  let ?si = "snd (bubble_sort D row)"
  let ?s = "small_end_of D dmax" and ?l = "large_end_of D dmax"
  let ?t = "\<lambda>j. row ! (?si ! j) * multiplier D ?s ?l j"
  note bs = bubble_sort_index[OF assms(1)]
  from assms(2) have D: "0 < D" by simp
  note eo = ends_order[OF assms(5,6) D]
  have nn: "0 \<le> row ! (?si ! j)" if "j < D" for j
  proof -
    have "?si ! j < length row" using bs(1,3) that assms(1) nth_mem[of j ?si] by auto
    then show ?thesis using assms(3) by simp
  qed
  have mb: "?s \<le> multiplier D ?s ?l j" "multiplier D ?s ?l j \<le> ?l" if "j < D" for j
    using multiplier_bounds[OF assms(2), of ?s ?l j] eo(2) that by simp_all
  have t0: "0 \<le> ?t j" if "j < D" for j
    using nn[OF that] mb(1)[OF that] eo(1) by (intro mult_nonneg_nonneg) simp_all
  have "0 < ?t (D - 1)"
    using row_top_positive[OF assms(1-4)] multiplier_ends(2)[OF assms(2), of ?s ?l] eo(3)
    by simp
  then have "0 < (\<Sum>j\<in>{0..<D}. ?t j)"
    using t0 D by (intro sum_pos2[where i = "D - 1"]) simp_all
  then show pos: "0 < ranked_sum D row dmax" by (simp add: ranked_sum_def)
  have "(\<Sum>j\<in>{0..<D}. ?t j) \<le> (\<Sum>j\<in>{0..<D}. row ! (?si ! j) * ?l)"
    using nn mb(2) by (intro sum_mono mult_left_mono) simp_all
  also have "\<dots> = (\<Sum>j\<in>{0..<D}. row ! (?si ! j)) * ?l" by (simp add: sum_distrib_right)
  also have "(\<Sum>j\<in>{0..<D}. row ! (?si ! j)) = sum_list row"
    using sum_list_reindex[OF bs(2,1,3) assms(1)] by simp
  finally show "ranked_sum D row dmax \<le> ?l" using assms(4) by (simp add: ranked_sum_def)
  have sm: "sum_list (apply_multiplier D ?s ?l ?si row) = ranked_sum D row dmax"
    using apply_multiplier_sum[OF bs(2,1,3) assms(1)] by (simp add: ranked_sum_def)
  show "sharpen D row dmax =
           Returns (map (\<lambda>x. x / ranked_sum D row dmax) (apply_multiplier D ?s ?l ?si row))"
    using pos unfolding sharpen_unfold[OF assms(2,5)] normalize_def Let_def sm
      small_end_of_def[symmetric] large_end_of_def[symmetric]
    by (simp add: small_end_of_def[symmetric] large_end_of_def[symmetric])
qed

lemma sharpen_entry:
  assumes "length row = D" and "2 \<le> D" and "\<forall>x\<in>set row. 0 \<le> x" and "sum_list row = 1"
    and "0 \<le> dmax" and "dmax < dist_diff_thres" and "sharpen D row dmax = Returns q"
    and "j < D"
  shows "q ! (snd (bubble_sort D row) ! j) =
           row ! (snd (bubble_sort D row) ! j) *
           multiplier D (small_end_of D dmax) (large_end_of D dmax) j / ranked_sum D row dmax"
    and "length q = D"
proof -
  let ?si = "snd (bubble_sort D row)"
  let ?am = "apply_multiplier D (small_end_of D dmax) (large_end_of D dmax) ?si row"
  note bs = bubble_sort_index[OF assms(1)]
  note am = apply_multiplier_nth[OF bs(2,1,3) assms(1)]
  from sharpen_returns(3)[OF assms(1-6)] assms(7)
  have q: "q = map (\<lambda>x. x / ranked_sum D row dmax) ?am" by simp
  have "?si ! j < D" using bs(1,3) assms(8) nth_mem[of j ?si] by auto
  then show "q ! (?si ! j) = row ! (?si ! j) *
      multiplier D (small_end_of D dmax) (large_end_of D dmax) j / ranked_sum D row dmax"
    unfolding q using am(1) am(2)[OF assms(8)] by simp
  show "length q = D" unfolding q using am(1) by simp
qed

lemma sharpen_nonneg:
  assumes "length row = D" and "2 \<le> D" and "\<forall>x\<in>set row. 0 \<le> x" and "sum_list row = 1"
    and "0 \<le> dmax" and "dmax < dist_diff_thres" and "sharpen D row dmax = Returns q"
  shows "\<forall>x\<in>set q. 0 \<le> x"
proof
  fix x assume "x \<in> set q"
  let ?si = "snd (bubble_sort D row)"
  note bs = bubble_sort_index[OF assms(1)]
  note se = sharpen_entry[OF assms]
  have lq: "length q = D" using se(2)[of 0] assms(2) by simp
  from \<open>x \<in> set q\<close> obtain i where i: "i < D" "x = q ! i"
    using lq by (auto simp: in_set_conv_nth)
  then have "i \<in> set ?si" using bs(3) by simp
  then obtain j where j: "j < D" "?si ! j = i"
    using bs(1) by (auto simp: in_set_conv_nth)
  from assms(2) have D: "0 < D" by simp
  note eo = ends_order[OF assms(5,6) D]
  have "0 \<le> row ! i" using assms(1,3) i(1) by simp
  moreover have "0 \<le> multiplier D (small_end_of D dmax) (large_end_of D dmax) j"
  proof -
    from j(1) have "j \<le> D - 1" by simp
    from multiplier_bounds(1)[OF assms(2) _ this, of "small_end_of D dmax" "large_end_of D dmax"]
    have "small_end_of D dmax \<le> multiplier D (small_end_of D dmax) (large_end_of D dmax) j"
      using eo(2) by simp
    with eo(1) show ?thesis by (rule order_trans)
  qed
  moreover note sharpen_returns(1)[OF assms(1-6)]
  ultimately show "0 \<le> x"
    unfolding i(2) j(2)[symmetric] se(1)[OF j(1)] by simp
qed

section \<open>The dominant decision\<close>



lemma argmax_total: "row \<noteq> [] \<Longrightarrow> \<exists>a. argmax row = Returns a"
  by (cases row) (simp_all add: argmax_def)

section \<open>What the linear multiplier does to a row\<close>

lemma lowest_rank_smallest:
  assumes "length row = D" and "0 < D" and "i < D"
  shows "row ! (snd (bubble_sort D row) ! 0) \<le> row ! i"
proof -
  let ?si = "snd (bubble_sort D row)"
  note bs = bubble_sort_index[OF assms(1)]
  from assms(3) bs(3) have "i \<in> set ?si" by simp
  then obtain j where j: "j < D" "?si ! j = i" using bs(1) by (auto simp: in_set_conv_nth)
  from bs(4)[of 0 j] j show ?thesis by simp
qed


lemmas sharpen_eval = sharpen_def Let_def dist_diff_thres_def dist_diff_power_def bubble_sort_def
  swap_step_def apply_multiplier_def multiplier_def normalize_def upt_conv_Cons

text \<open>
  Claim C10. When the linear multiplier is applied with a largest distribution difference
  of exactly 0 (to a row of at least two nonnegative entries that sum to 1), the ratio is
  0, the small end is \<open>1 / deci_num * 0 powr 0.3 = 0\<close>, the multiplier of rank 0 is 0, and
  the entry of rank 0, a smallest entry of the row, is 0 in the result; every entry of the
  result is nonnegative. So a row of positive entries gets a zero entry.
\<close>

theorem sharpen_zero_difference:
  assumes "length row = D" and "2 \<le> D" and "\<forall>x\<in>set row. 0 \<le> x" and "sum_list row = 1"
  shows "\<exists>q. sharpen D row 0 = Returns q \<and> length q = D \<and>
           small_end_of D 0 = 0 \<and>
           multiplier D (small_end_of D 0) (large_end_of D 0) 0 = 0 \<and>
           (\<forall>i<D. row ! (snd (bubble_sort D row) ! 0) \<le> row ! i) \<and>
           q ! (snd (bubble_sort D row) ! 0) = 0 \<and>
           (\<forall>x\<in>set q. 0 \<le> x)"
proof -
  have d: "(0::real) \<le> 0" "0 < dist_diff_thres" by (simp_all add: dist_diff_thres_def)
  from sharpen_returns(3)[OF assms d] obtain q where q: "sharpen D row 0 = Returns q" by blast
  from assms(2) have D: "0 < D" by simp
  have s0: "small_end_of D 0 = 0" by (simp add: small_end_of_def)
  have m0: "multiplier D (small_end_of D 0) (large_end_of D 0) 0 = 0"
    using multiplier_ends(1)[OF assms(2)] s0 by simp
  note se = sharpen_entry[OF assms d q D]
  have "q ! (snd (bubble_sort D row) ! 0) = 0" unfolding se(1) m0 by simp
  moreover have "\<forall>i<D. row ! (snd (bubble_sort D row) ! 0) \<le> row ! i"
    using lowest_rank_smallest[OF assms(1) D] by blast
  moreover note sharpen_nonneg[OF assms d q] se(2) q s0 m0
  ultimately show ?thesis by blast
qed

theorem sharpen_zero_difference_witness:
  "sharpen 2 [3/4, 1/4] 0 = Returns [1, 0]"
  using sharpen_zero_difference[of "[3/4, 1/4]" 2]
  by (simp add: sharpen_eval)




section \<open>The rows after a round\<close>

lemma bind_Returns:
  "bind m f = Returns y \<longleftrightarrow> (\<exists>x. m = Returns x \<and> f x = Returns y)"
  by (cases m) simp_all

lemma accumulate_nonempty:
  "accumulate ddt acc nbrs = Returns r \<Longrightarrow> acc \<noteq> [] \<Longrightarrow> \<forall>row\<in>set ddt. row \<noteq> [] \<Longrightarrow> r \<noteq> []"
proof (induction nbrs arbitrary: acc)
  case Nil
  then show ?case by simp
next
  case (Cons n nbrs)
  from Cons.prems(1) have n: "n < length ddt"
    and a: "accumulate ddt (map2 (+) acc (ddt ! n)) nbrs = Returns r"
    by (auto split: if_splits)
  from n Cons.prems(3) have "ddt ! n \<noteq> []" by simp
  with Cons.prems(2) have "map2 (+) acc (ddt ! n) \<noteq> []" by (cases acc; cases "ddt ! n") simp_all
  from Cons.IH[OF a this Cons.prems(3)] show ?case .
qed

lemma accumulate_weighted_nonempty:
  "accumulate_weighted sz ddt acc nbrs = Returns r \<Longrightarrow> acc \<noteq> [] \<Longrightarrow>
   \<forall>row\<in>set ddt. row \<noteq> [] \<Longrightarrow> r \<noteq> []"
proof (induction nbrs arbitrary: acc)
  case Nil
  then show ?case by simp
next
  case (Cons n nbrs)
  let ?acc = "map2 (+) acc (map (\<lambda>x. x * real (sz ! n)) (ddt ! n))"
  from Cons.prems(1) have n: "n < length ddt"
    and a: "accumulate_weighted sz ddt ?acc nbrs = Returns r"
    by (auto split: if_splits)
  from n Cons.prems(3) have "ddt ! n \<noteq> []" by simp
  with Cons.prems(2) have "?acc \<noteq> []" by (cases acc; cases "ddt ! n") simp_all
  from Cons.IH[OF a this Cons.prems(3)] show ?case .
qed

lemma average_step_sum:
  assumes "average_step ddt i nbrs = Returns r" and "i < length ddt"
    and "\<forall>row\<in>set ddt. row \<noteq> []"
  shows "sum_list r = 1" and "r \<noteq> []"
proof -
  from assms(1) obtain acc where
    a: "accumulate ddt (map (\<lambda>x. x * 1) (ddt ! i)) nbrs = Returns acc" and
    n: "normalize acc = Returns r"
    by (auto simp: average_step_def bind_Returns)
  from assms(2,3) have "map (\<lambda>x. x * 1) (ddt ! i) \<noteq> []" by simp
  from accumulate_nonempty[OF a this assms(3)] have ne: "acc \<noteq> []" .
  from normalize_sum[OF n ne] ne show "sum_list r = 1" and "r \<noteq> []" by auto
qed

lemma weighted_step_sum:
  assumes "weighted_step sz ddt i nbrs = Returns r" and "i < length ddt"
    and "\<forall>row\<in>set ddt. row \<noteq> []"
  shows "sum_list r = 1"
proof -
  from assms(1) obtain acc where
    a: "accumulate_weighted sz ddt (map (\<lambda>x. x * real (sz ! i)) (ddt ! i)) nbrs = Returns acc"
    and n: "normalize acc = Returns r"
    by (auto simp: weighted_step_def bind_Returns split: if_splits)
  from assms(2,3) have "map (\<lambda>x. x * real (sz ! i)) (ddt ! i) \<noteq> []" by simp
  from accumulate_weighted_nonempty[OF a this assms(3)] have ne: "acc \<noteq> []" .
  from normalize_sum[OF n ne] show ?thesis by simp
qed

lemma length_fold_update:
  "length (fold (\<lambda>j r. r[f j := g j r]) js row) = length row"
  by (induction js arbitrary: row) simp_all

lemma length_apply_multiplier:
  "length (apply_multiplier D small large si row) = length row"
  unfolding apply_multiplier_def by (rule length_fold_update)

lemma sharpen_sum:
  assumes "sharpen D row dmax = Returns q" and "row \<noteq> []"
  shows "sum_list q = 1"
proof -
  from assms(1) obtain small large where
    n: "normalize (apply_multiplier D small large (snd (bubble_sort D row)) row) = Returns q"
    by (auto simp: sharpen_def Let_def split: if_splits)
  have "length (apply_multiplier D small large (snd (bubble_sort D row)) row) = length row"
    by (rule length_apply_multiplier)
  with assms(2) have "apply_multiplier D small large (snd (bubble_sort D row)) row \<noteq> []"
    by auto
  from normalize_sum[OF n this] show ?thesis by simp
qed

lemma evolve_node_row:
  assumes "evolve_node D conn domi sz ddt dd i = Returns dd'"
    and ne: "\<forall>row\<in>set ddt. row \<noteq> []"
  shows "i < length dd" and "length dd' = length dd" and "sum_list (dd' ! i) = 1"
    and "\<And>j. j \<noteq> i \<Longrightarrow> dd' ! j = dd ! j"
proof -
  from assms(1) have i: "i < length dd" "i < length ddt"
    by (auto simp: evolve_node_def bind_Returns split: if_splits)
  have "\<exists>row. dd' = dd[i := row] \<and> sum_list row = 1"
  proof (cases "is_converged domi (domi ! i) (conn ! i) = Returns True")
    case False
    with assms(1) obtain row where "weighted_step sz ddt i (conn ! i) = Returns row"
      "dd' = dd[i := row]"
      by (auto simp: evolve_node_def bind_Returns split: if_splits)
    with weighted_step_sum[OF this(1) i(2) ne] show ?thesis by blast
  next
    case True
    with assms(1) i obtain avg where avg: "average_step ddt i (conn ! i) = Returns avg"
      by (cases "average_step ddt i (conn ! i)")
         (auto simp: evolve_node_def bind_Returns split: if_splits)
    note a = average_step_sum[OF avg i(2) ne]
    from assms(1) True avg i a(2) have
      "dd' = dd[i := avg] \<or> (\<exists>m q. sharpen D avg m = Returns q \<and> dd' = dd[i := q])"
      by (auto simp: evolve_node_def bind_Returns Let_def split: if_splits)
    then show ?thesis
    proof
      assume "dd' = dd[i := avg]"
      with a(1) show ?thesis by blast
    next
      assume "\<exists>m q. sharpen D avg m = Returns q \<and> dd' = dd[i := q]"
      then obtain m q where q: "sharpen D avg m = Returns q" "dd' = dd[i := q]" by blast
      from sharpen_sum[OF q(1) a(2)] q(2) show ?thesis by blast
    qed
  qed
  then obtain row where row: "dd' = dd[i := row]" "sum_list row = 1" by blast
  show "i < length dd" by (fact i(1))
  show "length dd' = length dd" using row by simp
  show "sum_list (dd' ! i) = 1" using row i by simp
  show "\<And>j. j \<noteq> i \<Longrightarrow> dd' ! j = dd ! j" using row by simp
qed

lemma evolve_order_f_not_Returns_after:
  "bind m (\<lambda>x. NonFinite) \<noteq> Returns y"
  by (cases m) simp_all

lemma evolve_order_Returns:
  "evolve_order D conn domi sz ddt (i # order) dd = Returns dd' \<longleftrightarrow>
     (\<exists>dd1. evolve_node D conn domi sz ddt dd i = Returns dd1 \<and>
            evolve_order D conn domi sz ddt order dd1 = Returns dd')"
  by (cases "evolve_node D conn domi sz ddt dd i")
     (simp_all add: evolve_order_f_not_Returns_after del: evolve_order_f.simps)

lemma dominant_decisions_nonempty:
  "dominant_decisions dd = Returns domi \<Longrightarrow> \<forall>row\<in>set dd. row \<noteq> []"
proof (induction dd arbitrary: domi)
  case Nil
  then show ?case by simp
next
  case (Cons row dd)
  from Cons.prems obtain d ds where "argmax row = Returns d" "dominant_decisions dd = Returns ds"
    by (auto simp: bind_Returns)
  with Cons.IH[of ds] show ?case by (auto simp: argmax_def)
qed

lemma evolve_node_frame:
  assumes "evolve_node D conn domi sz ddt dd i = Returns dd'"
  shows "\<exists>row. dd' = dd[i := row]"
proof (cases "is_converged domi (domi ! i) (conn ! i) = Returns True")
  case False
  with assms show ?thesis
    by (auto simp: evolve_node_def bind_Returns split: if_splits)
next
  case True
  with assms obtain avg where avg: "average_step ddt i (conn ! i) = Returns avg"
    by (cases "average_step ddt i (conn ! i)")
       (auto simp: evolve_node_def bind_Returns split: if_splits)
  from assms True avg show ?thesis
    by (auto simp: evolve_node_def bind_Returns Let_def split: if_splits)
qed

lemma evolve_order_frame:
  assumes "evolve_order D conn domi sz ddt order dd = Returns dd'"
  shows "length dd' = length dd \<and> (\<forall>j. j \<notin> set order \<longrightarrow> dd' ! j = dd ! j)"
  using assms
proof (induction order arbitrary: dd)
  case Nil
  then show ?case by simp
next
  case (Cons i order)
  from Cons.prems obtain dd1 where
    n: "evolve_node D conn domi sz ddt dd i = Returns dd1" and
    r: "evolve_order D conn domi sz ddt order dd1 = Returns dd'"
    unfolding evolve_order_Returns by blast
  from evolve_node_frame[OF n] obtain row where "dd1 = dd[i := row]" by blast
  with Cons.IH[OF r] show ?case by simp
qed

lemma evolve_order_rows:
  assumes "evolve_order D conn domi sz ddt order dd = Returns dd'"
    and ne: "\<forall>row\<in>set ddt. row \<noteq> []"
  shows "length dd' = length dd \<and> (\<forall>i\<in>set order. i < length dd \<and> sum_list (dd' ! i) = 1) \<and>
         (\<forall>j. j \<notin> set order \<longrightarrow> dd' ! j = dd ! j)"
  using assms(1)
proof (induction order arbitrary: dd)
  case Nil
  then show ?case by simp
next
  case (Cons i order)
  from Cons.prems obtain dd1 where
    n: "evolve_node D conn domi sz ddt dd i = Returns dd1" and
    r: "evolve_order D conn domi sz ddt order dd1 = Returns dd'"
    unfolding evolve_order_Returns by blast
  note en = evolve_node_row[OF n ne]
  from Cons.IH[OF r] have ih: "length dd' = length dd1"
    "\<forall>k\<in>set order. k < length dd1 \<and> sum_list (dd' ! k) = 1"
    "\<forall>j. j \<notin> set order \<longrightarrow> dd' ! j = dd1 ! j" by simp_all
  have "sum_list (dd' ! i) = 1"
  proof (cases "i \<in> set order")
    case True
    with ih(2) show ?thesis by simp
  next
    case False
    with ih(3) en(3) show ?thesis by simp
  qed
  moreover have "\<forall>j. j \<notin> set (i # order) \<longrightarrow> dd' ! j = dd ! j"
    using ih(3) en(4) by simp
  ultimately show ?case using ih(1,2) en(1,2) by simp
qed

lemmas round_eval = round_step_def argmax_def detect_subgroups_def find_subgroups.simps
  search_members.simps update_subsizes_def evolve_def evolve_node_def average_step_def
  weighted_step_def py_max_def l1_diff_def sharpen_eval

text \<open>
  Claim C8. When a round returns (no exception, and no zero sum before a normalization),
  every row of the distribution matrix sums to 1 afterwards, over exact reals: each pass of
  the loop of line 270 ends, in the converged branch with or without the linear multiplier
  and in the divergent branch, with a division of row \<open>i\<close> by its sum, and writes no other
  row.
\<close>

theorem round_rows_sum_to_one:
  assumes "round_step N D conn st = Returns st'" and "length (deci_dist st) = N"
  shows "length (deci_dist st') = N \<and> (\<forall>i<N. sum_list (deci_dist st' ! i) = 1)"
proof -
  from assms(1) obtain domi sgs sizes where
    d: "dominant_decisions (deci_dist st) = Returns domi" and
    "evolve N D conn domi sizes (deci_dist st) = Returns (deci_dist st')"
    by (auto simp: round_step_def bind_Returns)
  then have "evolve_order D conn domi sizes (deci_dist st) [0..<N] (deci_dist st)
               = Returns (deci_dist st')"
    by (simp add: evolve_def)
  from evolve_order_rows[OF this dominant_decisions_nonempty[OF d]] assms(2)
  show ?thesis by simp
qed

theorem round_rows_sum_to_one_witness:
  "round_step 3 2 [[1], [0, 2], [1]]
     \<lparr>deci_dist = [[9/10, 1/10], [11/20, 9/20], [1/5, 4/5]], deci_domi = [], subgroups = [],
      subsizes = [0, 0, 0]\<rparr> =
   Returns \<lparr>deci_dist = [[29/40, 11/40], [31/50, 19/50], [13/30, 17/30]],
      deci_domi = [0, 0, 1], subgroups = [[0, 1], [2]], subsizes = [2, 2, 1]\<rparr> \<and>
   sum_list [29/40, 11/40 :: real] = 1 \<and> sum_list [31/50, 19/50 :: real] = 1 \<and>
   sum_list [13/30, 17/30 :: real] = 1"
  using round_rows_sum_to_one[of 3 2 "[[1], [0, 2], [1]]"
     "\<lparr>deci_dist = [[9/10, 1/10], [11/20, 9/20], [1/5, 4/5]], deci_domi = [], subgroups = [],
      subsizes = [0, 0, 0]\<rparr>"
     "\<lparr>deci_dist = [[29/40, 11/40], [31/50, 19/50], [13/30, 17/30]],
      deci_domi = [0, 0, 1], subgroups = [[0, 1], [2]], subsizes = [2, 2, 1]\<rparr>"]
  by (simp add: round_eval)

section \<open>The weighted average of a divergent node\<close>

lemma divergent_pass_closed:
  assumes "shaped N D ddt" and "length dd = N" and "length sz = N" and "length domi = N"
    and "length conn = N" and "i < N" and "\<forall>n\<in>set (conn ! i). n < N"
    and "is_converged domi (domi ! i) (conn ! i) = Returns False"
  shows "evolve_node deci_num conn domi sz ddt dd i =
           (if 0 < D \<and> (\<Sum>n\<leftarrow>i # conn ! i. real (sz ! n) * sum_list (ddt ! n)) = 0 then NonFinite
            else Returns (dd[i := map (\<lambda>d. (\<Sum>n\<leftarrow>i # conn ! i. real (sz ! n) * ddt ! n ! d) /
                                     (\<Sum>n\<leftarrow>i # conn ! i. real (sz ! n) * sum_list (ddt ! n)))
                                 [0..<D]]))"
proof -
  have ev: "evolve_node deci_num conn domi sz ddt dd i =
      bind (weighted_step sz ddt i (conn ! i)) (\<lambda>row. Returns (dd[i := row]))"
    using assms by (simp add: evolve_node_def shaped_length)
  have ws: "weighted_step sz ddt i (conn ! i) =
     (if 0 < D \<and> (\<Sum>n\<leftarrow>i # conn ! i. real (sz ! n) * sum_list (ddt ! n)) = 0 then NonFinite
      else Returns (map (\<lambda>d. (\<Sum>n\<leftarrow>i # conn ! i. real (sz ! n) * ddt ! n ! d) /
                               (\<Sum>n\<leftarrow>i # conn ! i. real (sz ! n) * sum_list (ddt ! n))) [0..<D]))"
    using assms by (intro weighted_step_closed) auto
  show ?thesis unfolding ev ws by simp
qed

lemma evolve_order_pass:
  assumes "evolve_order D conn domi sz ddt order dd = Returns dd'" and "i \<in> set order"
    and "distinct order"
  shows "\<exists>dd0 dd1. length dd0 = length dd \<and>
           evolve_node D conn domi sz ddt dd0 i = Returns dd1 \<and> dd' ! i = dd1 ! i"
  using assms
proof (induction order arbitrary: dd)
  case Nil
  then show ?case by simp
next
  case (Cons j order)
  from Cons.prems(1) obtain dd1 where
    n: "evolve_node D conn domi sz ddt dd j = Returns dd1" and
    r: "evolve_order D conn domi sz ddt order dd1 = Returns dd'"
    unfolding evolve_order_Returns by blast
  show ?case
  proof (cases "j = i")
    case True
    with Cons.prems(3) have "i \<notin> set order" by simp
    with evolve_order_frame[OF r] have "dd' ! i = dd1 ! i" by blast
    with n True show ?thesis by blast
  next
    case False
    with Cons.prems have "i \<in> set order" "distinct order" by simp_all
    moreover from evolve_node_frame[OF n] have "length dd1 = length dd" by auto
    ultimately show ?thesis using Cons.IH[OF r] by auto
  qed
qed

text \<open>
  Claim C6. When some neighbour of node \<open>i\<close> has another dominant decision, the pass for
  \<open>i\<close> (lines 337--345) writes into row \<open>i\<close> the sum of the rows of \<open>i\<close> and of its
  neighbours in the copy \<open>deci_dist_t\<close>, each multiplied by the subgroup size of its node,
  divided by the sum of its entries (non-finite values are stored when that sum is zero
  and the rows have an entry); nothing else is done to the row (no linear multiplier), and this is the row of \<open>i\<close> when the loop over the nodes has ended. With one
  neighbour, subgroup sizes 3 and 1 and rows that sum to 1, the new row is
  \<open>(3 * host + 1 * neighbour) / 4\<close>. The subgroup sizes are an input of the pass.
\<close>

theorem divergent_node_weighted_average:
  assumes "shaped N D ddt" and "length dd = N" and "length sz = N" and "length domi = N"
    and "length conn = N" and "i < N" and "\<forall>n\<in>set (conn ! i). n < N"
    and "is_converged domi (domi ! i) (conn ! i) = Returns False"
  shows "evolve_node deci_num conn domi sz ddt dd i =
           (if 0 < D \<and> (\<Sum>n\<leftarrow>i # conn ! i. real (sz ! n) * sum_list (ddt ! n)) = 0 then NonFinite
            else Returns (dd[i := map (\<lambda>d. (\<Sum>n\<leftarrow>i # conn ! i. real (sz ! n) * ddt ! n ! d) /
                                     (\<Sum>n\<leftarrow>i # conn ! i. real (sz ! n) * sum_list (ddt ! n)))
                                 [0..<D]])) \<and>
         (\<forall>dd'. evolve N deci_num conn domi sz ddt = Returns dd' \<longrightarrow>
            dd' ! i = map (\<lambda>d. (\<Sum>n\<leftarrow>i # conn ! i. real (sz ! n) * ddt ! n ! d) /
                               (\<Sum>n\<leftarrow>i # conn ! i. real (sz ! n) * sum_list (ddt ! n))) [0..<D]) \<and>
         (\<forall>n. conn ! i = [n] \<and> sz ! i = 3 \<and> sz ! n = 1 \<and>
              sum_list (ddt ! i) = 1 \<and> sum_list (ddt ! n) = 1 \<longrightarrow>
            evolve_node deci_num conn domi sz ddt dd i =
              Returns (dd[i := map (\<lambda>d. (3 * ddt ! i ! d + 1 * ddt ! n ! d) / 4) [0..<D]]))"
proof (intro conjI allI impI)
  let ?W = "(\<Sum>n\<leftarrow>i # conn ! i. real (sz ! n) * sum_list (ddt ! n))"
  let ?row = "map (\<lambda>d. (\<Sum>n\<leftarrow>i # conn ! i. real (sz ! n) * ddt ! n ! d) / ?W) [0..<D]"
  show pass: "evolve_node deci_num conn domi sz ddt dd i =
      (if 0 < D \<and> ?W = 0 then NonFinite else Returns (dd[i := ?row]))"
    by (rule divergent_pass_closed[OF assms])
  {
    fix dd' assume "evolve N deci_num conn domi sz ddt = Returns dd'"
    then have e: "evolve_order deci_num conn domi sz ddt [0..<N] ddt = Returns dd'"
      by (simp add: evolve_def)
    have "i \<in> set [0..<N]" "distinct [0..<N]" using assms(6) by simp_all
    from evolve_order_pass[OF e this] obtain dd0 dd1 where
      p: "length dd0 = length ddt" "evolve_node deci_num conn domi sz ddt dd0 i = Returns dd1"
      "dd' ! i = dd1 ! i" by blast
    from p(1) have l0: "length dd0 = N" using shaped_length[OF assms(1)] by simp
    from divergent_pass_closed[OF assms(1) l0 assms(3-8), of deci_num] p(2)
    have "dd1 = dd0[i := ?row]" by (simp split: if_splits)
    with p(3) l0 assms(6) show "dd' ! i = ?row" by simp
  }
  {
    fix n
    assume h: "conn ! i = [n] \<and> sz ! i = 3 \<and> sz ! n = 1 \<and>
              sum_list (ddt ! i) = 1 \<and> sum_list (ddt ! n) = 1"
    then show "evolve_node deci_num conn domi sz ddt dd i =
              Returns (dd[i := map (\<lambda>d. (3 * ddt ! i ! d + 1 * ddt ! n ! d) / 4) [0..<D]])"
      unfolding pass by simp
  }
qed

theorem divergent_node_weighted_average_witness:
  "evolve_node 2 [[1], [0]] [0, 1] [3, 1] [[9/10, 1/10], [2/5, 3/5]] [[9/10, 1/10], [2/5, 3/5]] 0
     = Returns [[31/40, 9/40], [2/5, 3/5]] \<and>
   is_converged [0, 1] ([0, 1] ! 0) ([[1], [0]] ! 0) = Returns False \<and>
   evolve 2 2 [[1], [0]] [0, 1] [3, 1] [[9/10, 1/10], [2/5, 3/5]]
     = Returns [[31/40, 9/40], [31/40, 9/40]]"
  using divergent_node_weighted_average[of 2 2 "[[9/10, 1/10], [2/5, 3/5]]"
      "[[9/10, 1/10], [2/5, 3/5]]" "[3, 1]" "[0, 1]" "[[1], [0]]" 0 2]
  by (simp add: shaped_def upt_conv_Cons evolve_def evolve_node_def weighted_step_def
        normalize_def)

section \<open>The order of the passes\<close>

text \<open>
  Claim C1. The distribution differences of line 300 are read from \<open>deci_dist\<close>, the
  matrix the loop writes into, not from the copy \<open>deci_dist_t\<close>. For two connected nodes
  with rows [0.95, 0.05] and [0.55, 0.45] the difference of the two rows of the copy is
  0.8, above the threshold; the program finds 0.4 for node 0 and, node 0 being
  updated, 0 for node 1, applies the multiplier to node 1 alone and ends with the rows
  [3/4, 1/4] and [1, 0]. Visiting node 1 first gives [1, 0] and [3/4, 1/4].
\<close>

theorem evolution_reads_updated_rows:
  "evolve 2 2 [[1], [0]] [0, 0] [2, 2] [[19/20, 1/20], [11/20, 9/20]]
     = Returns [[3/4, 1/4], [1, 0]] \<and>
   evolve_order 2 [[1], [0]] [0, 0] [2, 2] [[19/20, 1/20], [11/20, 9/20]] [1, 0]
       [[19/20, 1/20], [11/20, 9/20]]
     = Returns [[1, 0], [3/4, 1/4]] \<and>
   bind (pair_diffs [[19/20, 1/20], [11/20, 9/20]] [1, 0]) py_max = Returns (4/5) \<and>
   bind (pair_diffs [[3/4, 1/4], [3/4, 1/4]] [1, 0]) py_max = Returns 0 \<and>
   round_step 2 2 [[1], [0]]
     \<lparr>deci_dist = [[19/20, 1/20], [11/20, 9/20]], deci_domi = [], subgroups = [],
      subsizes = [0, 0]\<rparr> =
   Returns \<lparr>deci_dist = [[3/4, 1/4], [1, 0]], deci_domi = [0, 0], subgroups = [[0, 1]],
      subsizes = [2, 2]\<rparr>"
  by (simp add: round_eval)

section \<open>The subgroups are the connected components of equal dominant decision\<close>

lemma wf_netD:
  assumes "wf_net N conn" and "i < N"
  shows "distinct (conn ! i)" and "i \<notin> set (conn ! i)" and "set (conn ! i) \<subseteq> {0..<N}"
    and "\<And>j. j \<in> set (conn ! i) \<Longrightarrow> i \<in> set (conn ! j)" and "length conn = N"
proof -
  from assms(1) show "length conn = N" by (simp add: wf_net_def)
  from assms(2) have "i \<in> set [0..<N]" by simp
  with assms(1) have h: "distinct (conn ! i) \<and> i \<notin> set (conn ! i) \<and>
      (\<forall>j\<in>set (conn ! i). j < N \<and> i \<in> set (conn ! j))"
    unfolding wf_net_def by blast
  from h show "distinct (conn ! i)" by blast
  from h show "i \<notin> set (conn ! i)" by blast
  from h show "set (conn ! i) \<subseteq> {0..<N}" by auto
  from h show "\<And>j. j \<in> set (conn ! i) \<Longrightarrow> i \<in> set (conn ! j)" by blast
qed

lemma append_new_set:
  "set (append_new ns pm S P) = set pm \<union> {w \<in> set ns. w \<notin> set S \<and> w \<in> set P}"
  by (induction ns arbitrary: pm) auto

lemma append_new_distinct:
  "distinct pm \<Longrightarrow> distinct (append_new ns pm S P)"
  by (induction ns arbitrary: pm) auto

lemma append_new_prefix: "\<exists>ys. append_new ns pm S P = pm @ ys"
proof (induction ns arbitrary: pm)
  case Nil
  show ?case by simp
next
  case (Cons n ns)
  show ?case
  proof (cases "n \<notin> set pm \<and> n \<notin> set S \<and> n \<in> set P")
    case True
    from Cons[of "pm @ [n]"] obtain ys where "append_new ns (pm @ [n]) S P = (pm @ [n]) @ ys"
      by blast
    with True show ?thesis by simp
  next
    case False
    with Cons[of pm] show ?thesis by auto
  qed
qed

lemma append_new_take:
  "k \<le> length pm \<Longrightarrow> take k (append_new ns pm S P) = take k pm"
  using append_new_prefix[of ns pm S P] by auto

lemma remove1_nth_distinct:
  assumes "distinct xs" and "k < length xs"
  shows "remove1 (xs ! k) xs = take k xs @ drop (Suc k) xs"
proof -
  have xs: "xs = take k xs @ xs ! k # drop (Suc k) xs"
    using assms(2) by (rule id_take_nth_drop)
  have "xs ! k \<notin> set (take k xs)"
  proof
    assume "xs ! k \<in> set (take k xs)"
    then obtain i where i: "i < k" "take k xs ! i = xs ! k"
      using assms(2) by (auto simp: in_set_conv_nth)
    then have "xs ! i = xs ! k" by simp
    with assms i(1) show False by (simp add: nth_eq_iff_index_eq)
  qed
  then have "remove1 (xs ! k) (take k xs @ xs ! k # drop (Suc k) xs) =
             take k xs @ drop (Suc k) xs"
    by (simp add: remove1_append)
  with xs show ?thesis by simp
qed

lemma search_inv_reject:
  assumes "search_inv N conn domi c P S pm k" and "k < length pm" and "domi ! (pm ! k) \<noteq> c"
  shows "search_inv N conn domi c P S pm (k + 1)"
proof -
  have "set (take (k + 1) pm) = set (take k pm) \<union> {pm ! k}"
    using assms(2) by (simp add: take_Suc_conv_app_nth)
  with assms(1,3) show ?thesis unfolding search_inv_def by simp
qed

lemma search_post_done:
  assumes "search_inv N conn domi c P S pm k" and "\<not> k < length pm"
  shows "search_post conn domi c P S P S"
proof -
  from assms(2) have tk: "take k pm = pm" by simp
  from assms(1) have
    d: "distinct P" "distinct S" "set S \<inter> set P = {}" and
    lab: "\<forall>s\<in>set S. domi ! s = c" and
    no: "\<forall>x\<in>set pm. domi ! x \<noteq> c" and
    nb: "\<forall>s\<in>set S. \<forall>w\<in>set (conn ! s). w \<in> set S \<or> w \<in> set pm \<or> w \<notin> set P"
    unfolding search_inv_def tk by blast+
  have cl: "\<forall>s\<in>set S. \<forall>w\<in>set (conn ! s). domi ! w = c \<longrightarrow> w \<in> set S \<or> w \<notin> set P"
    using nb no by blast
  have re: "\<forall>s\<in>set S. \<exists>s0\<in>set S. (s0, s) \<in> (same_edges conn domi)\<^sup>*" by blast
  have pre: "\<exists>ys. S = S @ ys" by simp
  from d lab cl re pre show ?thesis unfolding search_post_def by blast
qed

lemma search_inv_accept:
  assumes wf: "wf_net N conn"
    and inv: "search_inv N conn domi c P S pm k"
    and k: "k < length pm" and lab: "domi ! (pm ! k) = c"
  shows "pm ! k \<in> set P" and "pm ! k < N"
    and "search_inv N conn domi c (remove1 (pm ! k) P) (S @ [pm ! k])
           (append_new (conn ! (pm ! k)) (remove1 (pm ! k) pm) (S @ [pm ! k])
              (remove1 (pm ! k) P)) k"
proof -
  let ?m = "pm ! k"
  let ?P = "remove1 ?m P" and ?S = "S @ [?m]" and ?pm1 = "remove1 ?m pm"
  let ?pm = "append_new (conn ! ?m) ?pm1 ?S ?P"
  from inv have
    dP: "distinct P" and sP: "set P \<subseteq> {0..<N}" and dpm: "distinct pm" and
    spm: "set pm \<subseteq> {0..<N}" and dS: "distinct S" and sS: "set S \<subseteq> {0..<N}" and
    SP: "set S \<inter> set P = {}" and
    inP: "\<forall>x\<in>set pm. domi ! x = c \<longrightarrow> x \<in> set P" and
    tk: "\<forall>x\<in>set (take k pm). domi ! x \<noteq> c" and
    lS: "\<forall>s\<in>set S. domi ! s = c" and
    nb: "\<forall>s\<in>set S. \<forall>w\<in>set (conn ! s). w \<in> set S \<or> w \<in> set pm \<or> w \<notin> set P" and
    par: "\<forall>x\<in>set pm. \<exists>s\<in>set S. x \<in> set (conn ! s)"
    unfolding search_inv_def by blast+
  from k have mpm: "?m \<in> set pm" by simp
  with inP lab show mP: "?m \<in> set P" by blast
  with sP show mN: "?m < N" by auto
  have setP: "set ?P = set P - {?m}" using dP by simp
  have setpm1: "set ?pm1 = set pm - {?m}" using dpm by simp
  have setpm: "set ?pm = set ?pm1 \<union> {w \<in> set (conn ! ?m). w \<notin> set ?S \<and> w \<in> set ?P}"
    by (rule append_new_set)
  have mS: "?m \<notin> set S" using mP SP by blast
  have 1: "distinct ?P" using dP by simp
  have 2: "set ?P \<subseteq> {0..<N}" using sP setP by blast
  have 3: "distinct ?pm" using dpm by (intro append_new_distinct) simp
  have cm: "set (conn ! ?m) \<subseteq> {0..<N}" by (rule wf_netD(3)[OF wf mN])
  have 4: "set ?pm \<subseteq> {0..<N}" unfolding setpm setpm1 using spm cm by blast
  have 5: "distinct ?S" using dS mS by simp
  have 6: "set ?S \<subseteq> {0..<N}" using sS mN by simp
  have 7: "set ?S \<inter> set ?P = {}" unfolding setP using SP by auto
  have 8: "\<forall>x\<in>set ?pm. domi ! x = c \<longrightarrow> x \<in> set ?P"
    unfolding setpm setpm1 setP using inP by blast
  have len1: "k \<le> length ?pm1" using k dpm by (simp add: length_remove1)
  have "take k ?pm = take k ?pm1" using len1 by (rule append_new_take)
  also have "\<dots> = take k pm"
    unfolding remove1_nth_distinct[OF dpm k] using k by simp
  finally have 9: "\<forall>x\<in>set (take k ?pm). domi ! x \<noteq> c" using tk by simp
  have 10: "\<forall>s\<in>set ?S. domi ! s = c" using lS lab by simp
  have 11: "\<forall>s\<in>set ?S. \<forall>w\<in>set (conn ! s). w \<in> set ?S \<or> w \<in> set ?pm \<or> w \<notin> set ?P"
  proof (intro ballI)
    fix s w assume s: "s \<in> set ?S" and w: "w \<in> set (conn ! s)"
    show "w \<in> set ?S \<or> w \<in> set ?pm \<or> w \<notin> set ?P"
    proof (cases "s = ?m")
      case True
      with w show ?thesis unfolding setpm by blast
    next
      case False
      with s have "s \<in> set S" by simp
      with nb w have "w \<in> set S \<or> w \<in> set pm \<or> w \<notin> set P" by blast
      then show ?thesis unfolding setpm setpm1 setP by auto
    qed
  qed
  have 12: "\<forall>x\<in>set ?pm. \<exists>s\<in>set ?S. x \<in> set (conn ! s)"
  proof
    fix x assume "x \<in> set ?pm"
    then consider "x \<in> set pm" | "x \<in> set (conn ! ?m)" unfolding setpm setpm1 by blast
    then show "\<exists>s\<in>set ?S. x \<in> set (conn ! s)"
    proof cases
      case 1
      with par obtain s where "s \<in> set S" "x \<in> set (conn ! s)" by blast
      then show ?thesis by auto
    next
      case 2
      then show ?thesis by auto
    qed
  qed
  from 1 2 3 4 5 6 7 8 9 10 11 12
  show "search_inv N conn domi c ?P ?S ?pm k" unfolding search_inv_def by blast
qed

lemma search_post_accept:
  assumes wf: "wf_net N conn"
    and inv: "search_inv N conn domi c P S pm k"
    and k: "k < length pm" and lab: "domi ! (pm ! k) = c"
    and post: "search_post conn domi c (remove1 (pm ! k) P) (S @ [pm ! k]) P' S'"
  shows "search_post conn domi c P S P' S'"
proof -
  let ?m = "pm ! k"
  note acc = search_inv_accept[OF wf inv k lab]
  from inv have dP: "distinct P" and sS: "set S \<subseteq> {0..<N}" and
    lS: "\<forall>s\<in>set S. domi ! s = c" and
    par: "\<forall>x\<in>set pm. \<exists>s\<in>set S. x \<in> set (conn ! s)"
    unfolding search_inv_def by blast+
  from post have
    d: "distinct P'" "distinct S'" and pre: "\<exists>ys. S' = (S @ [?m]) @ ys" and
    dis: "set S' \<inter> set P' = {}" and
    un: "set P' \<union> set S' = set (remove1 ?m P) \<union> set (S @ [?m])" and
    lab': "\<forall>s\<in>set S'. domi ! s = c" and
    cl: "\<forall>s\<in>set S'. \<forall>w\<in>set (conn ! s). domi ! w = c \<longrightarrow>
           w \<in> set S' \<or> w \<notin> set (remove1 ?m P)" and
    re: "\<forall>s\<in>set S'. \<exists>s0\<in>set (S @ [?m]). (s0, s) \<in> (same_edges conn domi)\<^sup>*"
    unfolding search_post_def by blast+
  have setP: "set (remove1 ?m P) = set P - {?m}" using dP by simp
  from pre obtain ys where ys: "S' = (S @ [?m]) @ ys" by blast
  then have pre': "\<exists>ys. S' = S @ ys" by simp
  from ys have mS': "?m \<in> set S'" by simp
  have un': "set P' \<union> set S' = set P \<union> set S"
    unfolding un setP using acc(1) by auto
  have cl': "\<forall>s\<in>set S'. \<forall>w\<in>set (conn ! s). domi ! w = c \<longrightarrow> w \<in> set S' \<or> w \<notin> set P"
    using cl mS' unfolding setP by blast
  from k have "?m \<in> set pm" by simp
  with par obtain s1 where s1: "s1 \<in> set S" "?m \<in> set (conn ! s1)" by blast
  with sS have "s1 < N" by auto
  then have "s1 < length conn" using wf_netD(5)[OF wf] by simp
  with s1 lS lab have e: "(s1, ?m) \<in> same_edges conn domi" by (simp add: same_edges_def)
  have re': "\<forall>s\<in>set S'. \<exists>s0\<in>set S. (s0, s) \<in> (same_edges conn domi)\<^sup>*"
  proof
    fix s assume "s \<in> set S'"
    with re obtain s0 where s0: "s0 \<in> set (S @ [?m])" "(s0, s) \<in> (same_edges conn domi)\<^sup>*"
      by blast
    show "\<exists>s0\<in>set S. (s0, s) \<in> (same_edges conn domi)\<^sup>*"
    proof (cases "s0 = ?m")
      case True
      with e s0(2) have "(s1, s) \<in> (same_edges conn domi)\<^sup>*"
        by (simp add: converse_rtrancl_into_rtrancl)
      with s1(1) show ?thesis by blast
    next
      case False
      with s0 show ?thesis by auto
    qed
  qed
  from d pre' dis un' lab' cl' re' show ?thesis unfolding search_post_def by blast
qed

lemma search_members_correct:
  "wf_net N conn \<Longrightarrow> length domi = N \<Longrightarrow> search_inv N conn domi c P S pm k \<Longrightarrow>
   \<exists>P' S'. search_members conn domi c pm k P S = Returns (P', S') \<and>
           search_post conn domi c P S P' S'"
proof (induction conn domi c pm k P S rule: search_members.induct)
  case (1 conn domi c pm k P S)
  note wf = "1.prems"(1) and len = "1.prems"(2) and inv = "1.prems"(3)
  show ?case
  proof (cases "k < length pm")
    case False
    then have "search_members conn domi c pm k P S = Returns (P, S)"
      by (simp add: search_members.simps)
    with search_post_done[OF inv False] show ?thesis by blast
  next
    case True
    note k = True
    from inv have "set pm \<subseteq> {0..<N}" unfolding search_inv_def by blast
    moreover from k have "pm ! k \<in> set pm" by simp
    ultimately have "pm ! k \<in> {0..<N}" by blast
    with len have inr: "pm ! k < length domi" by simp
    show ?thesis
    proof (cases "domi ! (pm ! k) = c")
      case False
      from "1.IH"(2)[OF k _ False wf len search_inv_reject[OF inv k False]] inr
      obtain P' S' where r: "search_members conn domi c pm (k + 1) P S = Returns (P', S')"
        "search_post conn domi c P S P' S'" by auto
      from k inr False have "search_members conn domi c pm k P S =
          search_members conn domi c pm (k + 1) P S"
        by (subst search_members.simps) simp
      with r show ?thesis by simp
    next
      case True
      note acc = search_inv_accept[OF wf inv k True]
      from acc(2) have mc: "pm ! k < length conn" using wf_netD(5)[OF wf] by simp
      from "1.IH"(1)[OF k _ True refl _ _ wf len acc(3)] inr acc(1) mc
      obtain P' S' where r: "search_members conn domi c
           (append_new (conn ! (pm ! k)) (remove1 (pm ! k) pm) (S @ [pm ! k]) (remove1 (pm ! k) P))
           k (remove1 (pm ! k) P) (S @ [pm ! k]) = Returns (P', S')"
        "search_post conn domi c (remove1 (pm ! k) P) (S @ [pm ! k]) P' S'" by auto
      from k inr True acc(1) mc have "search_members conn domi c pm k P S =
          search_members conn domi c
           (append_new (conn ! (pm ! k)) (remove1 (pm ! k) pm) (S @ [pm ! k]) (remove1 (pm ! k) P))
           k (remove1 (pm ! k) P) (S @ [pm ! k])"
        by (subst search_members.simps) (simp add: Let_def)
      with r(1) search_post_accept[OF wf inv k True r(2)] show ?thesis by simp
    qed
  qed
qed

lemma wf_net_length: "wf_net N conn \<Longrightarrow> length conn = N"
  by (simp add: wf_net_def)

lemma same_edges_range:
  assumes "wf_net N conn" and "(u, v) \<in> same_edges conn domi"
  shows "u < N" and "v < N" and "v \<in> set (conn ! u)" and "domi ! u = domi ! v"
proof -
  from assms(2) have u: "u < length conn" and v: "v \<in> set (conn ! u)"
    and l: "domi ! u = domi ! v" by (simp_all add: same_edges_def)
  from u show uN: "u < N" using wf_net_length[OF assms(1)] by simp
  from wf_netD(3)[OF assms(1) uN] v show "v < N" by auto
  show "v \<in> set (conn ! u)" by (fact v)
  show "domi ! u = domi ! v" by (fact l)
qed

lemma same_edges_sym:
  assumes "wf_net N conn" and "(u, v) \<in> same_edges conn domi"
  shows "(v, u) \<in> same_edges conn domi"
proof -
  note r = same_edges_range[OF assms]
  from wf_netD(4)[OF assms(1) r(1) r(3)] have "u \<in> set (conn ! v)" .
  moreover from r(2) have "v < length conn" using wf_netD(5)[OF assms(1)] by simp
  ultimately show ?thesis using r(4) by (simp add: same_edges_def)
qed

lemma same_edges_rtrancl_sym:
  assumes "wf_net N conn" and "(u, v) \<in> (same_edges conn domi)\<^sup>*"
  shows "(v, u) \<in> (same_edges conn domi)\<^sup>*"
  using assms(2)
proof (induction rule: rtrancl_induct)
  case base
  show ?case by simp
next
  case (step y z)
  from same_edges_sym[OF assms(1) step.hyps(2)] step.IH
  show ?case by (rule converse_rtrancl_into_rtrancl)
qed

lemma component_eq:
  assumes "wf_net N conn" and "v \<in> component conn domi f"
  shows "component conn domi v = component conn domi f"
proof -
  from assms(2) have fv: "(f, v) \<in> (same_edges conn domi)\<^sup>*" by (simp add: component_def)
  from same_edges_rtrancl_sym[OF assms(1) fv] have vf: "(v, f) \<in> (same_edges conn domi)\<^sup>*" .
  show ?thesis
  proof (rule set_eqI)
    fix u
    show "u \<in> component conn domi v \<longleftrightarrow> u \<in> component conn domi f"
      unfolding component_def using fv vf by (auto intro: rtrancl_trans)
  qed
qed

lemma outer_start:
  assumes wf: "wf_net N conn" and inv: "outer_inv N conn domi (f # P) sgs"
  shows "f < N" and "search_inv N conn domi (domi ! f) P [f] (conn ! f) 0"
proof -
  from inv have dP: "distinct (f # P)" and sP: "set (f # P) \<subseteq> {0..<N}" and
    cl: "\<forall>u v. (u, v) \<in> same_edges conn domi \<longrightarrow> u \<notin> set (f # P) \<longrightarrow> v \<notin> set (f # P)"
    unfolding outer_inv_def by blast+
  from sP show fN: "f < N" by simp
  note w = wf_netD[OF wf fN]
  have 8: "\<forall>x\<in>set (conn ! f). domi ! x = domi ! f \<longrightarrow> x \<in> set P"
  proof (intro ballI impI)
    fix x assume x: "x \<in> set (conn ! f)" and l: "domi ! x = domi ! f"
    from x w(2) have xf: "x \<noteq> f" by blast
    from fN have "f < length conn" using w(5) by simp
    with x l have "(f, x) \<in> same_edges conn domi" by (simp add: same_edges_def)
    from same_edges_sym[OF wf this] have "(x, f) \<in> same_edges conn domi" .
    with cl have "x \<notin> set (f # P) \<longrightarrow> f \<notin> set (f # P)" by blast
    then have "x \<in> set (f # P)" by simp
    with xf show "x \<in> set P" by simp
  qed
  from dP have 1: "distinct P" "set [f] \<inter> set P = {}" by simp_all
  from sP have 2: "set P \<subseteq> {0..<N}" "set [f] \<subseteq> {0..<N}" by simp_all
  have 11: "\<forall>s\<in>set [f]. \<forall>w\<in>set (conn ! s). w \<in> set [f] \<or> w \<in> set (conn ! f) \<or> w \<notin> set P"
    by simp
  have 12: "\<forall>x\<in>set (conn ! f). \<exists>s\<in>set [f]. x \<in> set (conn ! s)" by simp
  have 9: "\<forall>x\<in>set (take 0 (conn ! f)). domi ! x \<noteq> domi ! f" by simp
  have 10: "\<forall>s\<in>set [f]. domi ! s = domi ! f" "distinct [f]" by simp_all
  from 1 2 w(1) w(3) 8 9 10 11 12
  show "search_inv N conn domi (domi ! f) P [f] (conn ! f) 0"
    unfolding search_inv_def by blast
qed

lemma outer_step:
  assumes wf: "wf_net N conn" and inv: "outer_inv N conn domi (f # P) sgs"
    and post: "search_post conn domi (domi ! f) P [f] P' S'"
  shows "outer_inv N conn domi P' (sgs @ [S'])"
proof -
  let ?E = "same_edges conn domi"
  from inv have dP: "distinct (f # P)" and sP: "set (f # P) \<subseteq> {0..<N}" and
    dc: "distinct (concat sgs)" and sc: "set (concat sgs) = {0..<N} - set (f # P)" and
    comp: "\<forall>sg\<in>set sgs. sg \<noteq> [] \<and> set sg = component conn domi (hd sg)" and
    cl: "\<forall>u v. (u, v) \<in> ?E \<longrightarrow> u \<notin> set (f # P) \<longrightarrow> v \<notin> set (f # P)"
    unfolding outer_inv_def by blast+
  from post have
    dP': "distinct P'" and dS': "distinct S'" and pre: "\<exists>ys. S' = [f] @ ys" and
    dis: "set S' \<inter> set P' = {}" and un: "set P' \<union> set S' = set P \<union> set [f]" and
    nb: "\<forall>s\<in>set S'. \<forall>w\<in>set (conn ! s). domi ! w = domi ! f \<longrightarrow> w \<in> set S' \<or> w \<notin> set P" and
    lab: "\<forall>s\<in>set S'. domi ! s = domi ! f" and
    re: "\<forall>s\<in>set S'. \<exists>s0\<in>set [f]. (s0, s) \<in> ?E\<^sup>*"
    unfolding search_post_def by blast+
  from pre obtain ys where ys: "S' = f # ys" by auto
  then have hd: "hd S' = f" and ne: "S' \<noteq> []" and fS: "f \<in> set S'" by simp_all
  from un have S'sub: "set S' \<subseteq> set (f # P)" and P'sub: "set P' \<subseteq> set (f # P)" by auto
  have b: "set P' \<subseteq> {0..<N}" using P'sub sP by blast
  have "set (concat sgs) \<inter> set S' = {}" using sc S'sub by blast
  with dc dS' have c: "distinct (concat (sgs @ [S']))" by simp
  have P'eq: "set P' = set (f # P) - set S'" using un dis by auto
  have d: "set (concat (sgs @ [S'])) = {0..<N} - set P'"
    using sc P'eq S'sub sP by auto
  have sub1: "set S' \<subseteq> component conn domi f"
  proof
    fix s assume "s \<in> set S'"
    with re have "(f, s) \<in> ?E\<^sup>*" by auto
    then show "s \<in> component conn domi f" by (simp add: component_def)
  qed
  have closed: "z \<in> set S'" if y: "y \<in> set S'" and e: "(y, z) \<in> ?E" for y z
  proof (rule ccontr)
    assume z: "z \<notin> set S'"
    note r = same_edges_range[OF wf e]
    from lab y r(4) have "domi ! z = domi ! f" by simp
    with nb y r(3) z have zP: "z \<notin> set P" by blast
    from z fS have "z \<noteq> f" by blast
    with zP have "z \<notin> set (f # P)" by simp
    moreover from same_edges_sym[OF wf e] have "(z, y) \<in> ?E" .
    ultimately have "y \<notin> set (f # P)" using cl by blast
    with y S'sub show False by blast
  qed
  have sub2: "component conn domi f \<subseteq> set S'"
  proof
    fix u assume "u \<in> component conn domi f"
    then have "(f, u) \<in> ?E\<^sup>*" by (simp add: component_def)
    then show "u \<in> set S'"
    proof (induction rule: rtrancl_induct)
      case base
      show ?case by (fact fS)
    next
      case (step y z)
      from step.IH step.hyps(2) show ?case by (rule closed)
    qed
  qed
  from sub1 sub2 have eq: "set S' = component conn domi (hd S')" unfolding hd by blast
  with comp ne have e: "\<forall>sg\<in>set (sgs @ [S']). sg \<noteq> [] \<and> set sg = component conn domi (hd sg)"
    by simp
  have g: "\<forall>u v. (u, v) \<in> ?E \<longrightarrow> u \<notin> set P' \<longrightarrow> v \<notin> set P'"
  proof (intro allI impI)
    fix u v assume uv: "(u, v) \<in> ?E" and u: "u \<notin> set P'"
    show "v \<notin> set P'"
    proof (cases "u \<in> set S'")
      case True
      from closed[OF True uv] dis show ?thesis by blast
    next
      case False
      with u P'eq have "u \<notin> set (f # P)" by blast
      with cl uv have "v \<notin> set (f # P)" by blast
      with P'sub show ?thesis by blast
    qed
  qed
  from dP' b c d e g show ?thesis unfolding outer_inv_def by blast
qed

lemma find_subgroups_correct:
  "wf_net N conn \<Longrightarrow> length domi = N \<Longrightarrow> outer_inv N conn domi P sgs \<Longrightarrow>
   \<exists>sgs'. find_subgroups conn domi P sgs = Returns sgs' \<and> outer_inv N conn domi [] sgs'"
proof (induction conn domi P sgs rule: find_subgroups.induct)
  case (1 conn domi P sgs)
  note wf = "1.prems"(1) and len = "1.prems"(2) and inv = "1.prems"(3)
  show ?case
  proof (cases P)
    case Nil
    then have "find_subgroups conn domi P sgs = Returns sgs"
      by (simp add: find_subgroups.simps)
    with inv Nil show ?thesis by simp
  next
    case (Cons f P1)
    note os = outer_start[OF wf inv[unfolded Cons]]
    from os(1) have fc: "f < length conn" "f < length domi"
      using wf_net_length[OF wf] len by simp_all
    from search_members_correct[OF wf len os(2)] obtain P' S' where
      sm: "search_members conn domi (domi ! f) (conn ! f) 0 P1 [f] = Returns (P', S')" and
      post: "search_post conn domi (domi ! f) P1 [f] P' S'" by blast
    note inv' = outer_step[OF wf inv[unfolded Cons] post]
    from "1.IH"[OF Cons _ _ sm refl wf len inv'] fc
    obtain sgs' where r: "find_subgroups conn domi P' (sgs @ [S']) = Returns sgs'"
      "outer_inv N conn domi [] sgs'" by auto
    from Cons fc sm have "find_subgroups conn domi P sgs =
        find_subgroups conn domi P' (sgs @ [S'])"
      by (subst find_subgroups.simps) simp
    with r show ?thesis by simp
  qed
qed

lemma outer_inv_init:
  assumes "wf_net N conn"
  shows "outer_inv N conn domi [0..<N] []"
proof -
  have "\<forall>u v. (u, v) \<in> same_edges conn domi \<longrightarrow> u \<notin> set [0..<N] \<longrightarrow> v \<notin> set [0..<N]"
    using same_edges_range(1)[OF assms] by auto
  then show ?thesis by (simp add: outer_inv_def)
qed

lemma detect_subgroups_correct:
  assumes "wf_net N conn" and "length domi = N"
  shows "\<exists>sgs. detect_subgroups N conn domi = Returns sgs \<and> outer_inv N conn domi [] sgs"
  unfolding detect_subgroups_def
  by (rule find_subgroups_correct[OF assms outer_inv_init[OF assms(1)]])

lemma assign_sizes_correct:
  "distinct sub \<Longrightarrow> set sub \<subseteq> set T \<Longrightarrow> distinct T \<Longrightarrow> \<forall>i\<in>set T. i < length sz \<Longrightarrow>
   \<exists>sz' T'. assign_sizes n sub sz T = Returns (sz', T') \<and> length sz' = length sz \<and>
     distinct T' \<and> set T' = set T - set sub \<and>
     (\<forall>i\<in>set sub. sz' ! i = n) \<and> (\<forall>i. i \<notin> set sub \<longrightarrow> sz' ! i = sz ! i)"
proof (induction sub arbitrary: sz T)
  case Nil
  then show ?case by simp
next
  case (Cons i sub)
  from Cons.prems have i: "i \<in> set T" "i < length sz" "i \<notin> set sub" by auto
  have p: "distinct sub" "set sub \<subseteq> set (remove1 i T)" "distinct (remove1 i T)"
    "\<forall>j\<in>set (remove1 i T). j < length (sz[i := n])"
    using Cons.prems i by auto
  from Cons.IH[OF p] obtain sz' T' where
    r: "assign_sizes n sub (sz[i := n]) (remove1 i T) = Returns (sz', T')"
    "length sz' = length (sz[i := n])" "distinct T'" "set T' = set (remove1 i T) - set sub"
    "\<forall>j\<in>set sub. sz' ! j = n" "\<forall>j. j \<notin> set sub \<longrightarrow> sz' ! j = sz[i := n] ! j"
    by blast
  have e: "assign_sizes n (i # sub) sz T = Returns (sz', T')" using i r(1) by simp
  have s: "set T' = set T - set (i # sub)" using r(4) Cons.prems(3) by auto
  have a: "\<forall>j\<in>set (i # sub). sz' ! j = n" using r(5,6) i(2,3) by auto
  have b: "\<forall>j. j \<notin> set (i # sub) \<longrightarrow> sz' ! j = sz ! j" using r(6) by auto
  from e r(2,3) s a b show ?case by auto
qed

lemma assign_all_correct:
  "distinct (concat sgs) \<Longrightarrow> set (concat sgs) \<subseteq> set T \<Longrightarrow> distinct T \<Longrightarrow>
   \<forall>i\<in>set T. i < length sz \<Longrightarrow>
   \<exists>sz' T'. assign_all sgs sz T = Returns (sz', T') \<and> length sz' = length sz \<and>
     set T' = set T - set (concat sgs) \<and>
     (\<forall>sg\<in>set sgs. \<forall>i\<in>set sg. sz' ! i = length sg) \<and>
     (\<forall>i. i \<notin> set (concat sgs) \<longrightarrow> sz' ! i = sz ! i)"
proof (induction sgs arbitrary: sz T)
  case Nil
  then show ?case by simp
next
  case (Cons sg sgs)
  from Cons.prems(1) have d: "distinct sg" "distinct (concat sgs)"
    "set sg \<inter> set (concat sgs) = {}" by simp_all
  from Cons.prems(2) have sub: "set sg \<subseteq> set T" by simp
  from assign_sizes_correct[OF d(1) sub Cons.prems(3,4), of "length sg"] obtain sz1 T1 where
    a: "assign_sizes (length sg) sg sz T = Returns (sz1, T1)" "length sz1 = length sz"
    "distinct T1" "set T1 = set T - set sg" "\<forall>i\<in>set sg. sz1 ! i = length sg"
    "\<forall>i. i \<notin> set sg \<longrightarrow> sz1 ! i = sz ! i" by blast
  have p: "set (concat sgs) \<subseteq> set T1" "\<forall>i\<in>set T1. i < length sz1"
    using Cons.prems(2,4) d(3) a(2,4) by auto
  from Cons.IH[OF d(2) p(1) a(3) p(2)] obtain sz' T' where
    r: "assign_all sgs sz1 T1 = Returns (sz', T')" "length sz' = length sz1"
    "set T' = set T1 - set (concat sgs)"
    "\<forall>g\<in>set sgs. \<forall>i\<in>set g. sz' ! i = length g"
    "\<forall>i. i \<notin> set (concat sgs) \<longrightarrow> sz' ! i = sz1 ! i" by blast
  have e: "assign_all (sg # sgs) sz T = Returns (sz', T')" using a(1) r(1) by simp
  have s: "set T' = set T - set (concat (sg # sgs))" using r(3) a(4) by auto
  have "\<forall>i\<in>set sg. sz' ! i = length sg"
  proof
    fix i assume i: "i \<in> set sg"
    with d(3) have "i \<notin> set (concat sgs)" by blast
    with r(5) have "sz' ! i = sz1 ! i" by blast
    with a(5) i show "sz' ! i = length sg" by simp
  qed
  with r(4) have c: "\<forall>g\<in>set (sg # sgs). \<forall>i\<in>set g. sz' ! i = length g" by simp
  have b: "\<forall>i. i \<notin> set (concat (sg # sgs)) \<longrightarrow> sz' ! i = sz ! i" using r(5) a(6) by simp
  from e r(2) a(2) s c b show ?case by auto
qed

lemma update_subsizes_correct:
  assumes "distinct (concat sgs)" and "set (concat sgs) = {0..<N}" and "length sz = N"
  shows "\<exists>sz'. update_subsizes N sgs sz = Returns sz' \<and> length sz' = N \<and>
           (\<forall>sg\<in>set sgs. \<forall>i\<in>set sg. sz' ! i = length sg)"
proof -
  have "set (concat sgs) \<subseteq> set [0..<N]" "distinct [0..<N]" "\<forall>i\<in>set [0..<N]. i < length sz"
    using assms by simp_all
  from assign_all_correct[OF assms(1) this] obtain sz' T' where
    r: "assign_all sgs sz [0..<N] = Returns (sz', T')" "length sz' = length sz"
    "set T' = set [0..<N] - set (concat sgs)"
    "\<forall>sg\<in>set sgs. \<forall>i\<in>set sg. sz' ! i = length sg" by blast
  from r(3) assms(2) have "T' = []" by simp
  with r(1) have "update_subsizes N sgs sz = Returns sz'" by (simp add: update_subsizes_def)
  with r(2,4) assms(3) show ?thesis by auto
qed

lemmas detect_eval = detect_subgroups_def find_subgroups.simps search_members.simps

text \<open>
  Claim C2. On a well-formed network and for every labelling of the nodes, the subgroup
  search returns (it raises nothing), and the subgroups it returns are a partition of the
  node indices \<open>0, \<dots>, N - 1\<close>: no subgroup is empty, no node occurs twice, two different
  subgroups share no node, and every node lies in exactly one subgroup. The check of lines
  256--266 then passes and gives every node the size of its subgroup.
\<close>

theorem subgroups_partition:
  assumes "wf_net N conn" and "length domi = N"
  shows "\<exists>sgs. detect_subgroups N conn domi = Returns sgs \<and>
           distinct (concat sgs) \<and> \<Union>(set ` set sgs) = {0..<N} \<and> [] \<notin> set sgs \<and>
           (\<forall>i<length sgs. \<forall>j<length sgs. i \<noteq> j \<longrightarrow> set (sgs ! i) \<inter> set (sgs ! j) = {}) \<and>
           (\<forall>v<N. \<exists>!k. k < length sgs \<and> v \<in> set (sgs ! k)) \<and>
           (\<forall>sz. length sz = N \<longrightarrow>
              (\<exists>sz'. update_subsizes N sgs sz = Returns sz' \<and> length sz' = N \<and>
                 (\<forall>sg\<in>set sgs. \<forall>i\<in>set sg. sz' ! i = length sg)))"
proof -
  from detect_subgroups_correct[OF assms] obtain sgs where
    det: "detect_subgroups N conn domi = Returns sgs" and inv: "outer_inv N conn domi [] sgs"
    by blast
  from inv have dc: "distinct (concat sgs)" and sc: "set (concat sgs) = {0..<N}" and
    ne: "\<forall>sg\<in>set sgs. sg \<noteq> []" unfolding outer_inv_def by auto
  from sc have un: "\<Union>(set ` set sgs) = {0..<N}" by simp
  from ne have nil: "[] \<notin> set sgs" by blast
  from dc have dd: "distinct (removeAll [] sgs)" and
    dj: "\<forall>ys zs. ys \<in> set sgs \<and> zs \<in> set sgs \<and> ys \<noteq> zs \<longrightarrow> set ys \<inter> set zs = {}"
    unfolding distinct_concat_iff by blast+
  from dd nil have ds: "distinct sgs" by simp
  have pw: "\<forall>i<length sgs. \<forall>j<length sgs. i \<noteq> j \<longrightarrow> set (sgs ! i) \<inter> set (sgs ! j) = {}"
  proof (intro allI impI)
    fix i j assume ij: "i < length sgs" "j < length sgs" "i \<noteq> j"
    with ds have "sgs ! i \<noteq> sgs ! j" by (simp add: nth_eq_iff_index_eq)
    with dj ij show "set (sgs ! i) \<inter> set (sgs ! j) = {}" by simp
  qed
  have ex1: "\<forall>v<N. \<exists>!k. k < length sgs \<and> v \<in> set (sgs ! k)"
  proof (intro allI impI)
    fix v assume "v < N"
    with un have "v \<in> \<Union>(set ` set sgs)" by simp
    then obtain sg where "sg \<in> set sgs" "v \<in> set sg" by blast
    then obtain k where k: "k < length sgs" "v \<in> set (sgs ! k)"
      by (auto simp: in_set_conv_nth)
    show "\<exists>!k. k < length sgs \<and> v \<in> set (sgs ! k)"
    proof (rule ex1I[of _ k])
      show "k < length sgs \<and> v \<in> set (sgs ! k)" using k by simp
    next
      fix k' assume k': "k' < length sgs \<and> v \<in> set (sgs ! k')"
      show "k' = k"
      proof (rule ccontr)
        assume "k' \<noteq> k"
        with pw k k' have "set (sgs ! k') \<inter> set (sgs ! k) = {}" by blast
        with k k' show False by blast
      qed
    qed
  qed
  have us: "\<forall>sz. length sz = N \<longrightarrow>
              (\<exists>sz'. update_subsizes N sgs sz = Returns sz' \<and> length sz' = N \<and>
                 (\<forall>sg\<in>set sgs. \<forall>i\<in>set sg. sz' ! i = length sg))"
    using update_subsizes_correct[OF dc sc] by blast
  from det dc un nil pw ex1 us show ?thesis by blast
qed

theorem subgroups_partition_witness:
  "detect_subgroups 3 [[1], [0, 2], [1]] [0, 0, 1] = Returns [[0, 1], [2]] \<and>
   update_subsizes 3 [[0, 1], [2]] [0, 0, 0] = Returns [2, 2, 1] \<and>
   detect_subgroups 3 [[1], [0, 2], [1]] [0, 0, 0] = Returns [[0, 1, 2]]"
  using subgroups_partition[of 3 "[[1], [0, 2], [1]]" "[0, 0, 1]"]
  by (simp add: detect_eval update_subsizes_def upt_conv_Cons wf_net_def)

text \<open>
  Claim C3. On a well-formed network and for every labelling of the nodes, every subgroup
  the search builds from its first member \<open>v\<close> (the head of the subgroup) is exactly the set
  of nodes reachable from \<open>v\<close> along edges whose two ends have the same label, the maximal
  connected component of \<open>v\<close> that a breadth-first traversal of the same-label subgraph
  visits; and the subgroup of any node is the component of that node.
\<close>

theorem subgroups_are_components:
  assumes "wf_net N conn" and "length domi = N"
  shows "\<exists>sgs. detect_subgroups N conn domi = Returns sgs \<and>
           (\<forall>sg\<in>set sgs. sg \<noteq> [] \<and> set sg = component conn domi (hd sg)) \<and>
           (\<forall>v<N. \<exists>sg\<in>set sgs. v \<in> set sg \<and> set sg = component conn domi v)"
proof -
  from detect_subgroups_correct[OF assms] obtain sgs where
    det: "detect_subgroups N conn domi = Returns sgs" and inv: "outer_inv N conn domi [] sgs"
    by blast
  from inv have sc: "set (concat sgs) = {0..<N}" and
    comp: "\<forall>sg\<in>set sgs. sg \<noteq> [] \<and> set sg = component conn domi (hd sg)"
    unfolding outer_inv_def by auto
  have "\<forall>v<N. \<exists>sg\<in>set sgs. v \<in> set sg \<and> set sg = component conn domi v"
  proof (intro allI impI)
    fix v assume "v < N"
    with sc have "v \<in> set (concat sgs)" by simp
    then obtain sg where sg: "sg \<in> set sgs" "v \<in> set sg" by auto
    with comp have c: "set sg = component conn domi (hd sg)" by blast
    with sg(2) have "v \<in> component conn domi (hd sg)" by simp
    from component_eq[OF assms(1) this] c have "set sg = component conn domi v" by simp
    with sg show "\<exists>sg\<in>set sgs. v \<in> set sg \<and> set sg = component conn domi v" by blast
  qed
  with det comp show ?thesis by blast
qed

theorem subgroups_are_components_witness:
  "detect_subgroups 3 [[1], [0, 2], [1]] [0, 0, 1] = Returns [[0, 1], [2]] \<and>
   component [[1], [0, 2], [1]] [0, 0, 1] 0 = {0, 1} \<and>
   component [[1], [0, 2], [1]] [0, 0, 1] 2 = {2}"
proof -
  have wf: "wf_net 3 [[1], [0, 2], [1]]" by (simp add: wf_net_def upt_conv_Cons)
  have det: "detect_subgroups 3 [[1], [0, 2], [1]] [0, 0, 1] = Returns [[0, 1], [2]]"
    by (simp add: detect_eval upt_conv_Cons)
  from subgroups_are_components[OF wf, of "[0, 0, 1]"] det
  have "\<forall>sg\<in>set [[0, 1], [2]]. set sg = component [[1], [0, 2], [1]] [0, 0, 1] (hd sg)"
    by auto
  then have "component [[1], [0, 2], [1]] [0, 0, 1] 0 = {0, 1}"
    "component [[1], [0, 2], [1]] [0, 0, 1] 2 = {2}" by auto
  with det show ?thesis by simp
qed

section \<open>The network the program builds is well formed\<close>

lemma connections_sym: "connections nodes i j \<Longrightarrow> connections nodes j i"
  by (simp add: connections_def split: if_splits)

lemma connections_irrefl: "\<not> connections nodes i i"
  by (simp add: connections_def)

lemma built_network_wf:
  assumes "build_connection_lists N nodes = Returns conn"
  shows "wf_net N conn"
proof -
  from assms have conn: "conn = map (\<lambda>i. filter (connections nodes i) [0..<N]) [0..<N]"
    by (simp add: build_connection_lists_def split: if_splits)
  have row: "conn ! i = filter (connections nodes i) [0..<N]" if "i < N" for i
    using that by (simp add: conn)
  have "distinct (conn ! i) \<and> i \<notin> set (conn ! i) \<and>
        (\<forall>j\<in>set (conn ! i). j < N \<and> i \<in> set (conn ! j))" if i: "i \<in> set [0..<N]" for i
  proof (intro conjI ballI)
    from i have iN: "i < N" by simp
    show "distinct (conn ! i)" unfolding row[OF iN] by simp
    show "i \<notin> set (conn ! i)" unfolding row[OF iN] by (simp add: connections_irrefl)
    fix j assume "j \<in> set (conn ! i)"
    then have j: "j < N" "connections nodes i j" unfolding row[OF iN] by simp_all
    show "j < N" by (fact j(1))
    from connections_sym[OF j(2)] iN show "i \<in> set (conn ! j)" unfolding row[OF j(1)] by simp
  qed
  moreover have "length conn = N" by (simp add: conn)
  ultimately show ?thesis unfolding wf_net_def by blast
qed

lemma built_network_path:
  "build_connection_lists 3 [(0, 0), (1, 0), (2, 0)] = Returns [[1], [0, 2], [1]]"
  by (simp add: build_connection_lists_def connections_def are_connected_def upt_conv_Cons)

section \<open>Every round returns\<close>

lemma valid_distD:
  assumes "valid_dist N D dd" and "n < N"
  shows "length (dd ! n) = D" and "sum_list (dd ! n) = 1" and "\<And>d. d < D \<Longrightarrow> 0 \<le> dd ! n ! d"
proof -
  from assms have v: "valid_row D (dd ! n)" by (simp add: valid_dist_def list_all_length)
  then show "length (dd ! n) = D" "sum_list (dd ! n) = 1" by (simp_all add: valid_row_def)
  fix d assume "d < D"
  with v show "0 \<le> dd ! n ! d" by (simp add: valid_row_def list_all_length)
qed

lemma valid_dist_shaped: "valid_dist N D dd \<Longrightarrow> shaped N D dd"
  by (simp add: valid_dist_def shaped_def valid_row_def list_all_length)

lemma valid_dist_nonempty: "valid_dist N D dd \<Longrightarrow> \<forall>row\<in>set dd. row \<noteq> []"
  by (auto simp: valid_dist_def valid_row_def list_all_iff)

lemma valid_rowI:
  assumes "length row = D" and "\<And>d. d < D \<Longrightarrow> 0 \<le> row ! d" and "sum_list row = 1"
  shows "valid_row D row"
  using assms by (simp add: valid_row_def list_all_length)

lemma average_step_valid:
  assumes "valid_dist N D ddt" and "i < N" and "\<forall>n\<in>set nbrs. n < N"
  shows "\<exists>avg. average_step ddt i nbrs = Returns avg \<and> valid_row D avg"
proof -
  have one: "\<forall>n\<in>set (i # nbrs). sum_list (ddt ! n) = 1"
    using assms valid_distD(2)[OF assms(1)] by simp
  have "map (\<lambda>n. sum_list (ddt ! n)) (i # nbrs) = map (\<lambda>n. 1) (i # nbrs)"
    by (rule map_cong[OF refl]) (use one in blast)
  then have tot: "(\<Sum>n\<leftarrow>i # nbrs. sum_list (ddt ! n)) = real (length (i # nbrs))"
    by (simp only: sum_list_triv o_def)
  from average_step_closed[OF valid_dist_shaped[OF assms(1)] assms(2,3)] tot
  have eq: "average_step ddt i nbrs =
      Returns (map (\<lambda>d. (\<Sum>n\<leftarrow>i # nbrs. ddt ! n ! d) / real (length (i # nbrs))) [0..<D])"
    by simp
  let ?avg = "map (\<lambda>d. (\<Sum>n\<leftarrow>i # nbrs. ddt ! n ! d) / real (length (i # nbrs))) [0..<D]"
  have "valid_row D ?avg"
  proof (rule valid_rowI)
    show "length ?avg = D" by simp
    show "sum_list ?avg = 1"
      using average_step_sum(1)[OF eq _ valid_dist_nonempty[OF assms(1)]] assms(1,2)
      by (simp add: valid_dist_def)
    fix d assume d: "d < D"
    have "0 \<le> (\<Sum>n\<leftarrow>i # nbrs. ddt ! n ! d)"
    proof (rule sum_list_nonneg)
      fix x assume "x \<in> set (map (\<lambda>n. ddt ! n ! d) (i # nbrs))"
      then obtain n where "n \<in> set (i # nbrs)" "x = ddt ! n ! d" by auto
      moreover then have "n < N" using assms(2,3) by auto
      ultimately show "0 \<le> x" using valid_distD(3)[OF assms(1) _ d] by simp
    qed
    then show "0 \<le> ?avg ! d" using d by simp
  qed
  with eq show ?thesis by blast
qed

lemma weighted_step_valid:
  assumes "valid_dist N D ddt" and "length sz = N" and "\<forall>n<N. 1 \<le> sz ! n"
    and "i < N" and "\<forall>n\<in>set nbrs. n < N"
  shows "\<exists>row. weighted_step sz ddt i nbrs = Returns row \<and> valid_row D row"
proof -
  let ?W = "(\<Sum>n\<leftarrow>i # nbrs. real (sz ! n) * sum_list (ddt ! n))"
  let ?row = "map (\<lambda>d. (\<Sum>n\<leftarrow>i # nbrs. real (sz ! n) * ddt ! n ! d) / ?W) [0..<D]"
  have inN: "\<forall>n\<in>set (i # nbrs). n < N" using assms(4,5) by simp
  have "0 \<le> (\<Sum>n\<leftarrow>nbrs. real (sz ! n) * sum_list (ddt ! n))"
  proof (rule sum_list_nonneg)
    fix x assume "x \<in> set (map (\<lambda>n. real (sz ! n) * sum_list (ddt ! n)) nbrs)"
    then obtain n where "n \<in> set nbrs" "x = real (sz ! n) * sum_list (ddt ! n)" by auto
    moreover then have "sum_list (ddt ! n) = 1" using assms(5) valid_distD(2)[OF assms(1)] by simp
    ultimately show "0 \<le> x" by simp
  qed
  moreover have "1 \<le> real (sz ! i) * sum_list (ddt ! i)"
    using assms(3,4) valid_distD(2)[OF assms(1) assms(4)] by simp
  ultimately have W: "0 < ?W" by simp
  from weighted_step_closed[OF valid_dist_shaped[OF assms(1)] assms(2,4,5)] W
  have eq: "weighted_step sz ddt i nbrs = Returns ?row" by simp
  have "valid_row D ?row"
  proof (rule valid_rowI)
    show "length ?row = D" by simp
    show "sum_list ?row = 1"
      using weighted_step_sum[OF eq _ valid_dist_nonempty[OF assms(1)]] assms(1,4)
      by (simp add: valid_dist_def)
    fix d assume d: "d < D"
    have "0 \<le> (\<Sum>n\<leftarrow>i # nbrs. real (sz ! n) * ddt ! n ! d)"
    proof (rule sum_list_nonneg)
      fix x assume "x \<in> set (map (\<lambda>n. real (sz ! n) * ddt ! n ! d) (i # nbrs))"
      then obtain n where n: "n \<in> set (i # nbrs)" "x = real (sz ! n) * ddt ! n ! d" by auto
      with inN have "n < N" by blast
      from valid_distD(3)[OF assms(1) this d] n(2) show "0 \<le> x" by simp
    qed
    with W have "0 \<le> (\<Sum>n\<leftarrow>i # nbrs. real (sz ! n) * ddt ! n ! d) / ?W" by simp
    then show "0 \<le> ?row ! d" using d by simp
  qed
  with eq show ?thesis by blast
qed

lemma l1_diff_nonneg: "0 \<le> l1_diff a b"
  unfolding l1_diff_def by (rule sum_list_nonneg) auto

lemma row_diffs_total:
  assumes "j < length dd" and "\<forall>n\<in>set rest. n < length dd"
  shows "\<exists>ds. row_diffs dd j rest = Returns ds \<and> length ds = length rest \<and> (\<forall>x\<in>set ds. 0 \<le> x)"
  using assms(2)
proof (induction rest)
  case Nil
  show ?case by simp
next
  case (Cons k rest)
  then obtain ds where "row_diffs dd j rest = Returns ds" "length ds = length rest"
    "\<forall>x\<in>set ds. 0 \<le> x" by auto
  with Cons.prems assms(1) show ?case by (simp add: l1_diff_nonneg)
qed

lemma pair_diffs_total:
  assumes "\<forall>n\<in>set pool. n < length dd"
  shows "\<exists>ds. pair_diffs dd pool = Returns ds \<and> (\<forall>x\<in>set ds. 0 \<le> x) \<and>
           (2 \<le> length pool \<longrightarrow> ds \<noteq> [])"
  using assms
proof (induction pool)
  case Nil
  show ?case by simp
next
  case (Cons j rest)
  from Cons.prems have j: "j < length dd" and r: "\<forall>n\<in>set rest. n < length dd" by simp_all
  from row_diffs_total[OF j r] obtain ds where
    a: "row_diffs dd j rest = Returns ds" "length ds = length rest" "\<forall>x\<in>set ds. 0 \<le> x" by blast
  from Cons.IH[OF r] obtain ds' where
    b: "pair_diffs dd rest = Returns ds'" "\<forall>x\<in>set ds'. 0 \<le> x" by blast
  have "pair_diffs dd (j # rest) = Returns (ds @ ds')" using a(1) b(1) by simp
  moreover have "\<forall>x\<in>set (ds @ ds'). 0 \<le> x" using a(3) b(2) by auto
  moreover have "2 \<le> length (j # rest) \<longrightarrow> ds @ ds' \<noteq> []" using a(2) by auto
  ultimately show ?case by blast
qed

lemma fold_max_ge: "(x::real) \<le> fold max xs x"
proof (induction xs arbitrary: x)
  case Nil
  show ?case by simp
next
  case (Cons y ys)
  have "x \<le> max y x" by simp
  also have "\<dots> \<le> fold max ys (max y x)" by (rule Cons.IH)
  finally show ?case by simp
qed

lemma py_max_total:
  assumes "xs \<noteq> []" and "\<forall>x\<in>set xs. 0 \<le> x"
  shows "\<exists>m. py_max xs = Returns m \<and> 0 \<le> m"
proof (cases xs)
  case Nil
  with assms(1) show ?thesis by simp
next
  case (Cons x rest)
  with assms(2) have "0 \<le> x" by simp
  also have "x \<le> fold max rest x" by (rule fold_max_ge)
  finally show ?thesis using Cons by (simp add: py_max_def)
qed

lemma is_converged_total:
  assumes "\<forall>n\<in>set nbrs. n < length domi"
  shows "\<exists>b. is_converged domi h nbrs = Returns b"
  using assms by (induction nbrs) auto

lemma evolve_node_valid:
  assumes "length conn = N" and "length domi = N" and "i < N" and "\<forall>n\<in>set (conn ! i). n < N"
    and "conn ! i \<noteq> []" and "2 \<le> D" and "valid_dist N D ddt" and "length dd = N"
    and "length sz = N" and "\<forall>n<N. 1 \<le> sz ! n"
  shows "\<exists>row. evolve_node D conn domi sz ddt dd i = Returns (dd[i := row]) \<and> valid_row D row"
proof -
  have lt: "length ddt = N" using assms(7) by (simp add: valid_dist_def)
  have "\<forall>n\<in>set (conn ! i). n < length domi" using assms(2,4) by simp
  from is_converged_total[OF this] obtain b where
    b: "is_converged domi (domi ! i) (conn ! i) = Returns b" by blast
  have guards: "i < length domi" "i < length conn" "i < length ddt" "i < length dd"
    using assms(1,2,3,8) lt by simp_all
  show ?thesis
  proof (cases b)
    case False
    from weighted_step_valid[OF assms(7,9,10,3,4)] obtain row where
      w: "weighted_step sz ddt i (conn ! i) = Returns row" "valid_row D row" by blast
    have "evolve_node D conn domi sz ddt dd i = Returns (dd[i := row])"
      using guards b False w(1) by (simp add: evolve_node_def)
    with w(2) show ?thesis by blast
  next
    case True
    from average_step_valid[OF assms(7,3,4)] obtain avg where
      a: "average_step ddt i (conn ! i) = Returns avg" "valid_row D avg" by blast
    let ?dd1 = "dd[i := avg]"
    have "\<forall>n\<in>set (i # conn ! i). n < length ?dd1" using assms(3,4,8) by simp
    from pair_diffs_total[OF this] assms(5) obtain ds where
      p: "pair_diffs ?dd1 (i # conn ! i) = Returns ds" "\<forall>x\<in>set ds. 0 \<le> x" "ds \<noteq> []"
      by (cases "conn ! i") auto
    from py_max_total[OF p(3,2)] obtain m where m: "py_max ds = Returns m" "0 \<le> m" by blast
    have row1: "?dd1 ! i = avg" using guards(4) by simp
    show ?thesis
    proof (cases "m < dist_diff_thres")
      case False
      have "evolve_node D conn domi sz ddt dd i = Returns ?dd1"
        using guards b True a(1) p(1) m(1) False by (simp add: evolve_node_def Let_def)
      with a(2) show ?thesis by blast
    next
      case lt: True
      from a(2) have av: "length avg = D" "\<forall>x\<in>set avg. 0 \<le> x" "sum_list avg = 1"
        by (simp_all add: valid_row_def list_all_iff)
      from sharpen_returns(3)[OF av(1) assms(6) av(2,3) m(2) lt] obtain q where
        q: "sharpen D avg m = Returns q" by blast
      have "length q = D"
        using sharpen_entry(2)[OF av(1) assms(6) av(2,3) m(2) lt q, of 0] assms(6) by simp
      moreover from av(1) assms(6) have "avg \<noteq> []" by auto
      note sharpen_nonneg[OF av(1) assms(6) av(2,3) m(2) lt q] sharpen_sum[OF q this]
      ultimately have vq: "valid_row D q" by (simp add: valid_row_def list_all_iff)
      have "evolve_node D conn domi sz ddt dd i = Returns (?dd1[i := q])"
        using guards b True a(1) p(1) m(1) lt q row1 by (simp add: evolve_node_def Let_def)
      then have "evolve_node D conn domi sz ddt dd i = Returns (dd[i := q])" by simp
      with vq show ?thesis by blast
    qed
  qed
qed

lemma evolve_order_valid:
  assumes "length conn = N" and "length domi = N" and "\<forall>i<N. conn ! i \<noteq> [] \<and> (\<forall>n\<in>set (conn ! i). n < N)"
    and "2 \<le> D" and "valid_dist N D ddt" and "length sz = N" and "\<forall>n<N. 1 \<le> sz ! n"
  shows "\<forall>i\<in>set order. i < N \<Longrightarrow> length dd = N \<Longrightarrow>
         \<exists>dd'. evolve_order D conn domi sz ddt order dd = Returns dd' \<and> length dd' = N \<and>
           (\<forall>i\<in>set order. valid_row D (dd' ! i)) \<and> (\<forall>j. j \<notin> set order \<longrightarrow> dd' ! j = dd ! j)"
proof (induction order arbitrary: dd)
  case Nil
  then show ?case by simp
next
  case (Cons i order)
  from Cons.prems have i: "i < N" and rest: "\<forall>k\<in>set order. k < N" by simp_all
  from assms(3) i have ci: "conn ! i \<noteq> []" "\<forall>n\<in>set (conn ! i). n < N" by simp_all
  from evolve_node_valid[OF assms(1,2) i ci(2,1) assms(4,5) Cons.prems(2) assms(6,7)]
  obtain row where
    n: "evolve_node D conn domi sz ddt dd i = Returns (dd[i := row])" "valid_row D row" by blast
  have len1: "length (dd[i := row]) = N" using Cons.prems(2) by simp
  from Cons.IH[OF rest len1] obtain dd' where
    r: "evolve_order D conn domi sz ddt order (dd[i := row]) = Returns dd'" "length dd' = N"
    "\<forall>k\<in>set order. valid_row D (dd' ! k)" "\<forall>j. j \<notin> set order \<longrightarrow> dd' ! j = dd[i := row] ! j"
    by blast
  have e: "evolve_order D conn domi sz ddt (i # order) dd = Returns dd'" using n(1) r(1) by simp
  have vi: "valid_row D (dd' ! i)"
  proof (cases "i \<in> set order")
    case True
    with r(3) show ?thesis by blast
  next
    case False
    with r(4) have "dd' ! i = dd[i := row] ! i" by blast
    with n(2) i Cons.prems(2) show ?thesis by simp
  qed
  have "\<forall>j. j \<notin> set (i # order) \<longrightarrow> dd' ! j = dd ! j" using r(4) by simp
  with e r(2,3) vi show ?case by simp
qed

lemma dominant_decisions_total:
  assumes "\<forall>row\<in>set dd. row \<noteq> []"
  shows "\<exists>domi. dominant_decisions dd = Returns domi \<and> length domi = length dd"
  using assms
proof (induction dd)
  case Nil
  show ?case by simp
next
  case (Cons row dd)
  then obtain domi where d: "dominant_decisions dd = Returns domi" "length domi = length dd"
    by auto
  from Cons.prems have "row \<noteq> []" by simp
  from argmax_total[OF this] obtain a where "argmax row = Returns a" by blast
  with d show ?case by simp
qed

lemma round_step_returns:
  assumes "wf_net N conn" and "\<forall>i<N. conn ! i \<noteq> []" and "2 \<le> D"
    and "valid_dist N D (deci_dist st)" and "length (subsizes st) = N"
  shows "\<exists>st'. round_step N D conn st = Returns st' \<and> valid_dist N D (deci_dist st') \<and>
           length (subsizes st') = N"
proof -
  have ne: "\<forall>row\<in>set (deci_dist st). row \<noteq> []"
  proof
    fix row assume "row \<in> set (deci_dist st)"
    with assms(4) have "length row = D" by (simp add: valid_dist_def valid_row_def list_all_iff)
    with assms(3) show "row \<noteq> []" by auto
  qed
  have lenN: "length (deci_dist st) = N" using assms(4) by (simp add: valid_dist_def)
  from dominant_decisions_total[OF ne] lenN obtain domi where
    domi: "dominant_decisions (deci_dist st) = Returns domi" "length domi = N" by auto
  from detect_subgroups_correct[OF assms(1) domi(2)] obtain sgs where
    det: "detect_subgroups N conn domi = Returns sgs" and inv: "outer_inv N conn domi [] sgs"
    by blast
  from inv have dc: "distinct (concat sgs)" and sc: "set (concat sgs) = {0..<N}"
    unfolding outer_inv_def by auto
  from update_subsizes_correct[OF dc sc assms(5)] obtain sz where
    sz: "update_subsizes N sgs (subsizes st) = Returns sz" "length sz = N"
    "\<forall>sg\<in>set sgs. \<forall>i\<in>set sg. sz ! i = length sg" by blast
  have pos: "\<forall>n<N. 1 \<le> sz ! n"
  proof (intro allI impI)
    fix n assume "n < N"
    with sc have "n \<in> set (concat sgs)" by simp
    then obtain sg where sg: "sg \<in> set sgs" "n \<in> set sg" by auto
    with sz(3) have "sz ! n = length sg" by blast
    moreover from sg(2) have "sg \<noteq> []" by auto
    ultimately show "1 \<le> sz ! n" by (cases sg) simp_all
  qed
  have nb: "\<forall>i<N. conn ! i \<noteq> [] \<and> (\<forall>n\<in>set (conn ! i). n < N)"
  proof (intro allI impI conjI ballI)
    fix i assume i: "i < N"
    with assms(2) show "conn ! i \<noteq> []" by blast
    fix n assume "n \<in> set (conn ! i)"
    with wf_netD(3)[OF assms(1) i] have "n \<in> {0..<N}" by blast
    then show "n < N" by simp
  qed
  have ord: "\<forall>i\<in>set [0..<N]. i < N" by simp
  from evolve_order_valid[OF wf_net_length[OF assms(1)] domi(2) nb assms(3,4) sz(2) pos ord lenN]
  obtain dd' where
    ev: "evolve_order D conn domi sz (deci_dist st) [0..<N] (deci_dist st) = Returns dd'"
    "length dd' = N" "\<forall>i\<in>set [0..<N]. valid_row D (dd' ! i)" by blast
  from ev(2,3) have v: "valid_dist N D dd'" by (simp add: valid_dist_def list_all_length)
  have "round_step N D conn st =
      Returns \<lparr>deci_dist = dd', deci_domi = domi, subgroups = sgs, subsizes = sz\<rparr>"
    using domi(1) det sz(1) ev(1) by (simp add: round_step_def evolve_def)
  with v sz(2) show ?thesis by simp
qed

text \<open>
  On a well-formed network without isolated nodes and with at least two decisions, started
  from rows of nonnegative entries that sum to 1, every round returns, and the rows stay
  nonnegative with sum 1: any number of rounds can be run one after another.
\<close>

lemma rounds_return:
  assumes "wf_net N conn" and "\<forall>i<N. conn ! i \<noteq> []" and "2 \<le> D"
  shows "valid_dist N D (deci_dist st) \<Longrightarrow> length (subsizes st) = N \<Longrightarrow>
         \<exists>st'. (st, st') \<in> round_rel N D conn ^^ n \<and> valid_dist N D (deci_dist st') \<and>
           length (subsizes st') = N"
proof (induction n)
  case 0
  then show ?case by auto
next
  case (Suc n)
  from Suc.IH[OF Suc.prems] obtain st1 where
    s1: "(st, st1) \<in> round_rel N D conn ^^ n" "valid_dist N D (deci_dist st1)"
    "length (subsizes st1) = N" by blast
  from round_step_returns[OF assms s1(2,3)] obtain st2 where
    s2: "round_step N D conn st1 = Returns st2" "valid_dist N D (deci_dist st2)"
    "length (subsizes st2) = N" by blast
  from s2(1) have "(st1, st2) \<in> round_rel N D conn" by (simp add: round_rel_def)
  with s1(1) have "(st, st2) \<in> round_rel N D conn ^^ Suc n" by auto
  with s2(2,3) show ?case by blast
qed

section \<open>Zero sums\<close>

subsection \<open>The values numpy stores\<close>

text \<open>
  Python's \<open>max\<close> keeps a nan that comes first and skips one that comes later; a
  difference with a row of nan is nan, with a row of infinities it is inf or nan; a row
  divided by its zero sum holds nan where it held 0 and an infinity elsewhere.
\<close>

lemma py_max_f_examples:
  "py_max_f [NaN, Val 1] = Returns NaN \<and> py_max_f [Val (1/10), NaN] = Returns (Val (1/10)) \<and>
   py_max_f [Val (1/10), PInf, NaN] = Returns PInf \<and> py_max_f [] = Raises ValueError \<and>
   l1_diff_f [NaN, NaN] [Val (1/2), Val (1/2)] = NaN \<and>
   l1_diff_f [PInf, NInf] [Val (1/2), Val (1/2)] = PInf \<and>
   l1_diff_f [PInf, NInf] [PInf, Val 0] = NaN \<and>
   normalize_f [0, 0] = [NaN, NaN] \<and> normalize_f [1, - 1] = [PInf, NInf] \<and>
   normalize_f [1, 3] = [Val (1/4), Val (3/4)] \<and> normalize_f [] = []"
  by (simp add: py_max_f_def l1_diff_f_def sum_f_def normalize_f_def divided_by_zero_def)

lemma abs_diff_f_Val:
  "abs_diff_f a b = Val v \<Longrightarrow> (\<exists>x. a = Val x) \<and> (\<exists>y. b = Val y)"
  by (cases a; cases b) simp_all

lemma abs_diff_f_not_NInf: "abs_diff_f a b \<noteq> NInf"
  by (cases a; cases b) simp_all

lemma fold_greater_NaN:
  "fold (\<lambda>y m. if greater_f y m then y else m) rest NaN = NaN"
proof (induction rest)
  case Nil
  show ?case by simp
next
  case (Cons y rest)
  have "\<not> greater_f y NaN" by (cases y) simp_all
  with Cons show ?case by simp
qed

lemma fold_greater_PInf:
  "fold (\<lambda>y m. if greater_f y m then y else m) rest PInf = PInf"
proof (induction rest)
  case Nil
  show ?case by simp
next
  case (Cons y rest)
  have "\<not> greater_f y PInf" by (cases y) simp_all
  with Cons show ?case by simp
qed

lemma py_max_f_number:
  assumes "py_max_f (d # ds) = Returns (Val m)" and "d \<noteq> NInf"
  shows "\<exists>v. d = Val v"
  using assms by (cases d) (simp_all add: py_max_f_def fold_greater_NaN fold_greater_PInf)

lemma l1_diff_f_number:
  assumes "l1_diff_f a b = Val v" and "length a = length b"
  shows "\<forall>x\<in>set a. \<exists>r. x = Val r"
proof
  fix x assume "x \<in> set a"
  then obtain k where k: "k < length a" "a ! k = x" by (auto simp: in_set_conv_nth)
  from assms(1) have "NaN \<notin> set (map2 abs_diff_f a b)" "PInf \<notin> set (map2 abs_diff_f a b)"
    by (auto simp: l1_diff_f_def sum_f_def split: if_splits)
  moreover have "map2 abs_diff_f a b ! k \<in> set (map2 abs_diff_f a b)"
    using k(1) assms(2) by (intro nth_mem) simp
  then have "abs_diff_f (a ! k) (b ! k) \<in> set (map2 abs_diff_f a b)"
    using k(1) assms(2) by simp
  ultimately have "abs_diff_f (a ! k) (b ! k) \<noteq> NaN" "abs_diff_f (a ! k) (b ! k) \<noteq> PInf"
    by metis+
  with abs_diff_f_not_NInf[of "a ! k" "b ! k"] obtain w where
    "abs_diff_f (a ! k) (b ! k) = Val w" by (cases "abs_diff_f (a ! k) (b ! k)") simp_all
  from abs_diff_f_Val[OF this] k(2) show "\<exists>r. x = Val r" by simp
qed

lemma l1_diff_f_not_NInf: "l1_diff_f a b \<noteq> NInf"
proof -
  have "NInf \<notin> set (map2 abs_diff_f a b)"
    by (auto simp: abs_diff_f_not_NInf[THEN not_sym])
  then show ?thesis by (simp add: l1_diff_f_def sum_f_def)
qed

text \<open>
  When the largest difference of a block is a number, the row of the host holds numbers
  only: the first difference is the host's with its first neighbour.
\<close>

lemma host_row_numbers:
  assumes "pair_diffs_f live (i # n # rest) = Returns ds" and "py_max_f ds = Returns (Val m)"
    and "length (live ! i) = length (live ! n)"
  shows "\<forall>x\<in>set (live ! i). \<exists>r. x = Val r"
proof -
  from assms(1) obtain ds' where ds: "ds = l1_diff_f (live ! i) (live ! n) # ds'"
    by (auto simp: bind_Returns split: if_splits)
  from py_max_f_number[OF assms(2)[unfolded ds] l1_diff_f_not_NInf] obtain v where
    "l1_diff_f (live ! i) (live ! n) = Val v" by blast
  from l1_diff_f_number[OF this assms(3)] show ?thesis .
qed

subsection \<open>The pass over numbers and the pass over the values of numpy agree\<close>












lemma bind_NonFinite:
  "bind m f = NonFinite \<longleftrightarrow> m = NonFinite \<or> (\<exists>x. m = Returns x \<and> f x = NonFinite)"
  by (cases m) simp_all

lemma is_converged_finite [simp]: "is_converged domi h nbrs \<noteq> NonFinite"
  by (induction nbrs) auto

lemma accumulate_finite [simp]: "accumulate ddt acc nbrs \<noteq> NonFinite"
  by (induction nbrs arbitrary: acc) simp_all

lemma accumulate_weighted_finite [simp]: "accumulate_weighted sz ddt acc nbrs \<noteq> NonFinite"
  by (induction nbrs arbitrary: acc) simp_all

lemma row_diffs_finite [simp]: "row_diffs dd j ks \<noteq> NonFinite"
  by (induction ks) (simp_all add: bind_NonFinite)


lemma row_diffs_f_finite [simp]: "row_diffs_f dd j ks \<noteq> NonFinite"
  by (induction ks) (simp_all add: bind_NonFinite)

lemma pair_diffs_f_finite [simp]: "pair_diffs_f dd pool \<noteq> NonFinite"
  by (induction pool) (simp_all add: bind_NonFinite)

lemma py_max_finite [simp]: "py_max xs \<noteq> NonFinite"
  by (cases xs) (simp_all add: py_max_def)

lemma py_max_f_finite [simp]: "py_max_f xs \<noteq> NonFinite"
  by (cases xs) (simp_all add: py_max_f_def)

lemma sharpen_f_finite [simp]: "sharpen_f D row m \<noteq> NonFinite"
  by (simp add: sharpen_f_def Let_def)

lemma evolve_node_f_finite [simp]: "evolve_node_f D conn domi sz ddt live i \<noteq> NonFinite"
  by (auto simp: evolve_node_f_def bind_NonFinite Let_def split: if_splits fval.splits)

lemma evolve_order_f_finite [simp]: "evolve_order_f D conn domi sz ddt order live \<noteq> NonFinite"
  by (induction order arbitrary: live) (simp_all add: bind_NonFinite)

lemma normalize_never_raises [simp]: "normalize row \<noteq> Raises e"
  by (simp add: normalize_def Let_def)





subsection \<open>What can raise after a zero sum\<close>





















lemmas nonfinite_eval = evolve_node_f_def normalize_f_def divided_by_zero_def l1_diff_f_def
  sum_f_def py_max_f_def sharpen_f_def value_of_def



text \<open>
  After a zero sum the later passes are run, and they raise what they raise without it:
  ValueError for a node without neighbours (here node 2, after the zero sum of node 0),
  ZeroDivisionError when the linear multiplier is reached with one decision (here in the
  pass of node 2, after the zero sums of nodes 0 and 1).
\<close>

lemma later_passes_raise:
  "round_step 3 2 [[1], [0], []]
     \<lparr>deci_dist = [[0, 0], [0, 0], [1/2, 1/2]], deci_domi = [], subgroups = [],
      subsizes = [0, 0, 0]\<rparr> = Raises ValueError \<and>
   evolve 4 1 [[1], [0], [3], [2]] [0, 0, 0, 0] [2, 2, 2, 2] [[0], [0], [1], [1]]
     = Raises ZeroDivisionError"
  by (simp add: normalize_def round_eval nonfinite_eval)

end
